theory Spec2Isabelle
  imports Main
begin

section \<open>The in-memory log of package server\<close>

text \<open>
  The Go source declares
  \<^verbatim>\<open>var ErrorOffsetNotFound = fmt.Errorf("offset not found")\<close>,
  \<^verbatim>\<open>type Record struct { Value string; Offset int }\<close> and
  \<^verbatim>\<open>type Log struct { mu sync.RWMutex; records []Record }\<close>.
  Every method takes the lock for its whole body, so each call is one atomic
  state transition and the mutex itself is not part of the state.  A Go \<open>int\<close>
  is modelled by \<open>int\<close>: the only arithmetic is \<open>len(l.records)\<close>, which cannot
  leave the 64-bit range.

  A call either returns an error value or is cut short by a run-time panic;
  both are failures, kept apart by their constructor.  \<open>Status c msg\<close> is the error
  \<^verbatim>\<open>status.New(c, msg).Err()\<close> of the gRPC status package, used by package auth below, and
  \<open>ErrOffsetOutOfRange off\<close> is \<^verbatim>\<open>api.ErrOffsetOutOfRange{Offset: off}\<close>, which the tests of
  package log expect from the segmented log.
\<close>

datatype codes = OK | Canceled | Unknown | InvalidArgument | DeadlineExceeded | NotFound
  | AlreadyExists | PermissionDenied

datatype failure = Error string | Status codes string | ErrOffsetOutOfRange nat | Panic string

definition ErrorOffsetNotFound :: failure where
  "ErrorOffsetNotFound = Error ''offset not found''"

record Record =
  Value :: string
  Offset :: int

record Log =
  records :: "Record list"

definition NewLog :: Log where
  "NewLog = \<lparr>records = []\<rparr>"

text \<open>
  \<^verbatim>\<open>r.Offset = len(l.records); l.records = append(l.records, r); return r.Offset, nil\<close>.
  The result is the new log, the returned offset and the returned error (always nil).
\<close>

definition Append :: "Log \<Rightarrow> Record \<Rightarrow> Log \<times> int \<times> failure option" where
  "Append l r =
     (let r' = r\<lparr>Offset := int (length (records l))\<rparr>
      in (l\<lparr>records := records l @ [r']\<rparr>, Offset r', None))"

text \<open>
  \<^verbatim>\<open>if offset >= len(l.records) { return Record{}, ErrorOffsetNotFound }
  return l.records[offset], nil\<close>.
  The only guard is the upper one.  Indexing a Go slice with a negative index
  panics at run time (index out of range), which is written out here.
\<close>

definition Read :: "Log \<Rightarrow> int \<Rightarrow> failure + Record" where
  "Read l offset =
     (if offset \<ge> int (length (records l)) then Inl ErrorOffsetNotFound
      else if offset < 0 then Inl (Panic ''runtime error: index out of range'')
      else Inr (records l ! nat offset))"

text \<open>Calls made by a client, and the log they leave behind.  \<open>Read\<close> holds only the
  read lock and assigns nothing, so it leaves the log as it found it whatever it returns.\<close>

datatype call = CallAppend Record | CallRead int

fun exec :: "Log \<Rightarrow> call list \<Rightarrow> Log" where
  "exec l [] = l"
| "exec l (CallAppend r # cs) = exec (fst (Append l r)) cs"
| "exec l (CallRead offset # cs) = exec l cs"

text \<open>A run of appends, collecting the offsets returned in order.\<close>

fun appends :: "Log \<Rightarrow> Record list \<Rightarrow> Log \<times> int list" where
  "appends l [] = (l, [])"
| "appends l (r # rs) =
     (case Append l r of (l', off, err) \<Rightarrow>
        (case appends l' rs of (l'', offs) \<Rightarrow> (l'', off # offs)))"

text \<open>What a run of appends stores: the \<open>k\<close>-th, \<open>k+1\<close>-st, ... record, each stamped
  with its own index.  Used only to state what \<open>appends\<close> computes.\<close>

fun stamp :: "nat \<Rightarrow> Record list \<Rightarrow> Record list" where
  "stamp k [] = []"
| "stamp k (r # rs) = r\<lparr>Offset := int k\<rparr> # stamp (Suc k) rs"

subsection \<open>Properties of the in-memory log\<close>

lemma records_Append: "records (fst (Append l r)) = records l @ [r\<lparr>Offset := int (length (records l))\<rparr>]"
  by (simp add: Append_def Let_def)

lemma exec_records_prefix: "\<exists>ys. records (exec l cs) = records l @ ys"
proof (induction cs arbitrary: l)
  case Nil
  show ?case by simp
next
  case (Cons c cs)
  show ?case
  proof (cases c)
    case (CallAppend r)
    from Cons.IH [of "fst (Append l r)"] obtain ys
      where "records (exec (fst (Append l r)) cs) = records (fst (Append l r)) @ ys" ..
    with CallAppend show ?thesis by (simp add: records_Append)
  next
    case (CallRead offset)
    with Cons.IH [of l] show ?thesis by simp
  qed
qed

text \<open>
  C1.  Round trip: when \<open>Append\<close> stores record \<open>r\<close> and returns offset \<open>off\<close>, then after
  any further calls (the log has no truncation) \<open>Read off\<close> succeeds and returns a record
  with the very payload \<open>Value r\<close>.
\<close>

theorem Append_Read_roundtrip:
  assumes "Append l r = (l', off, err)"
  shows "\<exists>r'. Read (exec l' cs) off = Inr r' \<and> Value r' = Value r"
proof -
  let ?n = "length (records l)"
  from assms have l': "l' = fst (Append l r)" and off: "off = int ?n"
    by (auto simp: Append_def Let_def)
  from exec_records_prefix [of l' cs] obtain ys
    where ys: "records (exec l' cs) = records l' @ ys" ..
  have recs: "records (exec l' cs) = records l @ r\<lparr>Offset := int ?n\<rparr> # ys"
    using ys l' by (simp add: records_Append)
  have "Read (exec l' cs) off = Inr (r\<lparr>Offset := int ?n\<rparr>)"
    unfolding Read_def recs off by (simp add: nth_append)
  then show ?thesis by simp
qed

theorem Append_Read_roundtrip_witness:
  "\<exists>r'. Read (exec (fst (Append NewLog \<lparr>Value = ''hello world'', Offset = 7\<rparr>))
              [CallAppend \<lparr>Value = ''again'', Offset = 0\<rparr>, CallRead 5]) 0 = Inr r'
        \<and> Value r' = ''hello world''"
proof -
  have "Append NewLog \<lparr>Value = ''hello world'', Offset = 7\<rparr>
      = (fst (Append NewLog \<lparr>Value = ''hello world'', Offset = 7\<rparr>), 0, None)"
    by (simp add: Append_def NewLog_def)
  from Append_Read_roundtrip [OF this,
      of "[CallAppend \<lparr>Value = ''again'', Offset = 0\<rparr>, CallRead 5]"]
  show ?thesis by simp
qed

lemma appends_closed_form:
  "appends l rs =
     (l\<lparr>records := records l @ stamp (length (records l)) rs\<rparr>,
      map int [length (records l) ..< length (records l) + length rs])"
proof (induction rs arbitrary: l)
  case Nil
  show ?case by simp
next
  case (Cons r rs)
  have upt: "[length (records l) ..< length (records l) + length (r # rs)]
           = length (records l) # [Suc (length (records l)) ..< Suc (length (records l)) + length rs]"
  proof -
    have "length (records l) < length (records l) + length (r # rs)" by simp
    from upt_conv_Cons [OF this] show ?thesis by simp
  qed
  show ?case
    unfolding upt
    by (simp add: Cons.IH Append_def Let_def)
qed

lemma length_stamp: "length (stamp k rs) = length rs"
  by (induction rs arbitrary: k) auto

lemma nth_stamp: "n < length rs \<Longrightarrow> stamp k rs ! n = (rs ! n)\<lparr>Offset := int (k + n)\<rparr>"
proof (induction rs arbitrary: k n)
  case Nil
  then show ?case by simp
next
  case (Cons r rs)
  show ?case
  proof (cases n)
    case 0
    then show ?thesis by simp
  next
    case (Suc m)
    with Cons.prems have "m < length rs" by simp
    from Cons.IH [OF this, of "Suc k"] Suc show ?thesis by simp
  qed
qed

text \<open>
  C2.  Starting from the empty log, the \<open>n\<close>-th append (counting from 0) of any run of
  appends returns offset \<open>n\<close>, and the record stored for it is the caller's record with its
  \<open>Offset\<close> field overwritten by \<open>n\<close>, whatever the caller had put there.
\<close>

theorem appends_assign_sequential_offsets:
  assumes "n < length rs"
  shows "snd (appends NewLog rs) ! n = int n
       \<and> records (fst (appends NewLog rs)) ! n = (rs ! n)\<lparr>Offset := int n\<rparr>"
  using assms
  by (simp add: appends_closed_form NewLog_def nth_stamp)

theorem appends_assign_sequential_offsets_witness:
  "(1::nat) < length [\<lparr>Value = ''a'', Offset = 40\<rparr>, \<lparr>Value = ''b'', Offset = - 3\<rparr>]
   \<and> snd (appends NewLog [\<lparr>Value = ''a'', Offset = 40\<rparr>, \<lparr>Value = ''b'', Offset = - 3\<rparr>]) ! 1 = 1
   \<and> records (fst (appends NewLog [\<lparr>Value = ''a'', Offset = 40\<rparr>, \<lparr>Value = ''b'', Offset = - 3\<rparr>])) ! 1
       = \<lparr>Value = ''b'', Offset = 1\<rparr>"
proof -
  have h: "(1::nat) < length [\<lparr>Value = ''a'', Offset = 40\<rparr>, \<lparr>Value = ''b'', Offset = - 3\<rparr>]"
    by simp
  from appends_assign_sequential_offsets [OF h] h show ?thesis by simp
qed

lemma Read_at_or_above_length:
  "int (length (records l)) \<le> offset \<Longrightarrow> Read l offset = Inl ErrorOffsetNotFound"
  by (simp add: Read_def)

text \<open>
  C3 (the code at the input where the claim fails).  \<open>Read\<close> checks the offset against
  the upper bound only.  An offset at or above the length does come back as the error
  \<open>ErrorOffsetNotFound\<close>, but a negative offset passes the guard and indexes the slice:
  the call panics instead of returning an error.  \<open>handleConsume\<close> parses the offset with
  \<open>strconv.ParseInt\<close>, so a request for \<open>/-1\<close> reaches \<open>Read\<close> with \<open>-1\<close>.
\<close>

theorem Read_negative_offset_panics:
  "Read NewLog (- 1) = Inl (Panic ''runtime error: index out of range'')
   \<and> Read NewLog (- 1) \<noteq> Inl ErrorOffsetNotFound"
  by (simp add: Read_def NewLog_def ErrorOffsetNotFound_def)

lemma exec_offsets_invariant:
  assumes "\<forall>i < length (records l). Offset (records l ! i) = int i"
  shows "\<forall>i < length (records (exec l cs)). Offset (records (exec l cs) ! i) = int i"
  using assms
proof (induction cs arbitrary: l)
  case Nil
  then show ?case by simp
next
  case (Cons c cs)
  show ?case
  proof (cases c)
    case (CallAppend r)
    have "\<forall>i < length (records (fst (Append l r))). Offset (records (fst (Append l r)) ! i) = int i"
      using Cons.prems by (auto simp: records_Append nth_append less_Suc_eq)
    from Cons.IH [OF this] CallAppend show ?thesis by simp
  next
    case (CallRead offset)
    with Cons.IH [OF Cons.prems] show ?thesis by simp
  qed
qed

text \<open>
  C10.  Invariant of the in-memory log: in the state reached from the empty log by any
  sequence of \<open>Append\<close> and \<open>Read\<close> calls, the record at index \<open>i\<close> carries offset \<open>i\<close>;
  hence every \<open>Read o\<close> that succeeds returns a record whose \<open>Offset\<close> is \<open>o\<close>.
\<close>

theorem reachable_log_offsets_are_indices:
  assumes "l = exec NewLog cs"
  shows "(\<forall>i < length (records l). Offset (records l ! i) = int i)
       \<and> (\<forall>offset r. Read l offset = Inr r \<longrightarrow> Offset r = offset)"
proof -
  have stamped: "\<forall>i < length (records l). Offset (records l ! i) = int i"
    unfolding assms by (rule exec_offsets_invariant) (simp add: NewLog_def)
  have "Offset r = offset" if "Read l offset = Inr r" for offset r
  proof -
    from that have "0 \<le> offset" "offset < int (length (records l))" "r = records l ! nat offset"
      by (auto simp: Read_def split: if_splits)
    with stamped show ?thesis by simp
  qed
  with stamped show ?thesis by blast
qed

theorem reachable_log_offsets_are_indices_witness:
  "Offset (records (exec NewLog [CallAppend \<lparr>Value = ''a'', Offset = 9\<rparr>, CallRead (- 1),
                                 CallAppend \<lparr>Value = ''b'', Offset = 9\<rparr>]) ! 1) = 1
   \<and> Read (exec NewLog [CallAppend \<lparr>Value = ''a'', Offset = 9\<rparr>, CallRead (- 1),
                        CallAppend \<lparr>Value = ''b'', Offset = 9\<rparr>]) 1 = Inr \<lparr>Value = ''b'', Offset = 1\<rparr>
   \<and> Offset \<lparr>Value = ''b'', Offset = 1\<rparr> = 1"
proof -
  let ?cs = "[CallAppend \<lparr>Value = ''a'', Offset = 9\<rparr>, CallRead (- 1),
              CallAppend \<lparr>Value = ''b'', Offset = 9\<rparr>]"
  have len: "(1::nat) < length (records (exec NewLog ?cs))"
    by (simp add: Append_def NewLog_def)
  have rd: "Read (exec NewLog ?cs) 1 = Inr \<lparr>Value = ''b'', Offset = 1\<rparr>"
    by (simp add: Read_def Append_def NewLog_def)
  from reachable_log_offsets_are_indices [OF refl, of ?cs] len rd
  show ?thesis by auto
qed

section \<open>Authorization (package auth)\<close>

text \<open>
  \<^verbatim>\<open>type Authorizer struct { enforcer *casbin.Enforcer }\<close>.  The casbin enforcer is an
  external library; all that \<open>Authorize\<close> uses of it is the pair \<open>(valid, err)\<close> that
  \<open>Enforce(subject, object, action)\<close> returns, so the enforcer is a function to that pair.
\<close>

record Authorizer =
  enforcer :: "string \<Rightarrow> string \<Rightarrow> string \<Rightarrow> bool \<times> failure option"

text \<open>Go prints a \<open>bool\<close> as \<open>true\<close> or \<open>false\<close>.\<close>

definition show_bool :: "bool \<Rightarrow> string" where
  "show_bool b = (if b then ''true'' else ''false'')"

text \<open>
  \<^verbatim>\<open>valid, err := a.enforcer.Enforce(subject, object, action)
  if err != nil { return err }
  fmt.Println("got here: ", valid)
  if !valid {
      msg := fmt.Sprintf("%s not permitted to %s to %s", subject, action, object)
      st := status.New(codes.PermissionDenied, msg)
      return st.Err()
  }
  return nil\<close>
  The result is the lines written to standard output (\<open>Println\<close> puts a space between its
  operands) and the returned error, \<open>None\<close> for nil.
\<close>

definition Authorize :: "Authorizer \<Rightarrow> string \<Rightarrow> string \<Rightarrow> string \<Rightarrow> string list \<times> failure option" where
  "Authorize a subject object action =
     (case enforcer a subject object action of
        (valid, Some err) \<Rightarrow> ([], Some err)
      | (valid, None) \<Rightarrow>
          ([''got here: '' @ '' '' @ show_bool valid],
           if \<not> valid
           then Some (Status PermissionDenied
                        (subject @ '' not permitted to '' @ action @ '' to '' @ object))
           else None))"

text \<open>
  Modelled from the spec: the log-service facade (the \<open>Produce\<close> and \<open>Consume\<close> handlers of
  the gRPC server in package server), whose source file is not among the sources; only its
  tests are.  The specification says that the facade invokes \<open>Authorize\<close> before
  \<open>Produce\<close>/\<open>Consume\<close> and maps a denial to a permission-denied service error without
  performing the storage operation, the error being surfaced verbatim to the caller.  The
  storage operations of the commit log are parameters: \<open>store_append\<close> returns the new log state
  with the assigned offset or an error, \<open>store_read\<close> returns the record or an error.
\<close>

definition Produce ::
  "Authorizer \<Rightarrow> string \<Rightarrow> string \<Rightarrow> string \<Rightarrow> ('l \<Rightarrow> 'v \<Rightarrow> 'l \<times> (failure + nat))
     \<Rightarrow> 'l \<Rightarrow> 'v \<Rightarrow> 'l \<times> (failure + nat)" where
  "Produce a subject object action store_append l v =
     (case snd (Authorize a subject object action) of
        Some err \<Rightarrow> (l, Inl err)
      | None \<Rightarrow> store_append l v)"

text \<open>
  Modelled from the spec: the \<open>Consume\<close> handler of the same facade, also missing from the
  sources: authorization first, and on a denial the error is returned and the log is not read.
\<close>

definition Consume ::
  "Authorizer \<Rightarrow> string \<Rightarrow> string \<Rightarrow> string \<Rightarrow> ('l \<Rightarrow> nat \<Rightarrow> failure + 'v)
     \<Rightarrow> 'l \<Rightarrow> nat \<Rightarrow> failure + 'v" where
  "Consume a subject object action store_read l offset =
     (case snd (Authorize a subject object action) of
        Some err \<Rightarrow> Inl err
      | None \<Rightarrow> store_read l offset)"

subsection \<open>Properties of authorization\<close>

text \<open>
  C9.  For every caller identity, resource and action: when the policy denies the request
  (the enforcer answers \<open>false\<close> with no error), \<open>Authorize\<close> returns a permission-denied
  status error, and the facade hands that very error to the caller of \<open>Produce\<close> and of
  \<open>Consume\<close> with the log state untouched, whatever the storage operations would have done;
  when the policy permits it (the enforcer answers \<open>true\<close> with no error), \<open>Authorize\<close>
  returns nil.
\<close>

theorem Authorize_denied_or_permitted:
  "(enforcer a subject object action = (False, None) \<longrightarrow>
      snd (Authorize a subject object action)
        = Some (Status PermissionDenied (subject @ '' not permitted to '' @ action @ '' to '' @ object))
      \<and> Produce a subject object action store_append l v
        = (l, Inl (Status PermissionDenied (subject @ '' not permitted to '' @ action @ '' to '' @ object)))
      \<and> Consume a subject object action store_read l offset
        = Inl (Status PermissionDenied (subject @ '' not permitted to '' @ action @ '' to '' @ object)))
   \<and> (enforcer a subject object action = (True, None) \<longrightarrow>
      snd (Authorize a subject object action) = None)"
  by (simp add: Authorize_def Produce_def Consume_def)

text \<open>The witness uses the policy of the server tests: \<open>root\<close> may do everything,
  \<open>nobody\<close> nothing.  The storage operation offered to the facade would have changed the
  state; the denial leaves it at \<open>0\<close>.\<close>

theorem Authorize_denied_or_permitted_witness:
  "snd (Authorize \<lparr>enforcer = (\<lambda>s ob ac. (s = ''root'', None))\<rparr> ''nobody'' ''*'' ''produce'')
     = Some (Status PermissionDenied ''nobody not permitted to produce to *'')
   \<and> Produce \<lparr>enforcer = (\<lambda>s ob ac. (s = ''root'', None))\<rparr> ''nobody'' ''*'' ''produce''
        (\<lambda>(l::nat) (v::string). (Suc l, Inr l)) 0 ''hello world!''
     = (0, Inl (Status PermissionDenied ''nobody not permitted to produce to *''))
   \<and> Consume \<lparr>enforcer = (\<lambda>s ob ac. (s = ''root'', None))\<rparr> ''nobody'' ''*'' ''produce''
        (\<lambda>(l::nat) n. Inr ''hello world!'') 0 0
     = Inl (Status PermissionDenied ''nobody not permitted to produce to *'')
   \<and> snd (Authorize \<lparr>enforcer = (\<lambda>s ob ac. (s = ''root'', None))\<rparr> ''root'' ''*'' ''produce'') = None"
proof -
  let ?a = "\<lparr>enforcer = (\<lambda>s ob ac. (s = ''root'', None))\<rparr>"
  have deny: "enforcer ?a ''nobody'' ''*'' ''produce'' = (False, None)" by simp
  have permit: "enforcer ?a ''root'' ''*'' ''produce'' = (True, None)" by simp
  from Authorize_denied_or_permitted
         [of ?a "''nobody''" "''*''" "''produce''" "\<lambda>(l::nat) (v::string). (Suc l, Inr l)" 0
             "''hello world!''" "\<lambda>(l::nat) n. Inr ''hello world!''" 0]
       Authorize_denied_or_permitted [of ?a "''root''" "''*''" "''produce''"] deny permit
  show ?thesis by simp
qed

section \<open>The replicator (package log)\<close>

text \<open>
  \<^verbatim>\<open>type Replicator struct {
      DialOptions []grpc.DialOption; LocalServer api.LogClient
      logger *zap.Logger; mu sync.Mutex
      servers map[string]chan struct{}; closed bool; close chan struct{} }\<close>
  \<open>DialOptions\<close> and \<open>LocalServer\<close> are set once by the owner and never assigned by the
  methods; they are the fixed surroundings of the calls \<open>grpc.Dial\<close> and
  \<open>LocalServer.Produce\<close> below.  \<open>Join\<close>, \<open>Leave\<close> and \<open>Close\<close> hold \<open>mu\<close> for their whole
  body, so each call is one atomic transition.  A nil pointer, map or channel is \<open>None\<close>.
  Channels are objects of the run-time system: a channel is named by a number, \<open>make\<close>
  hands out the next unused one, and the set of channels closed so far is part of the state.
\<close>

type_synonym chan = nat

record Replicator =
  logger :: "string option"
  servers :: "(string \<rightharpoonup> chan) option"
  closed :: bool
  close :: "chan option"

text \<open>
  A goroutine started by \<^verbatim>\<open>go r.replicate(addr, stopCh)\<close>: its two arguments, the point
  its body has reached, and the state of the goroutine it starts in turn to receive from
  the stream (waiting in \<open>stream.Recv()\<close>, holding a record it offers on the unbuffered
  channel \<open>records\<close>, or gone after a receive error).
\<close>

datatype 'r receiver = NotStarted | Receiving | Holding 'r | Exited

datatype control = AtDial | AtConsumeStream | AtSelect | Returned

record 'r task =
  addr :: string
  stopCh :: chan
  main :: control
  rx :: "'r receiver"

text \<open>What a task does to the outside, in the order it does it: \<open>grpc.Dial(addr)\<close>,
  \<open>client.ConsumeStream\<close> with the requested offset, \<open>r.LocalServer.Produce\<close> with a record,
  \<open>r.logError(err, msg, addr)\<close>, and the deferred \<open>conn.Close()\<close>.\<close>

datatype 'r effect =
    DialCall string
  | ConsumeStreamCall string nat
  | ProduceCall 'r
  | LogError failure string string
  | ConnClose string

record 'r world = Replicator +
  closed_chans :: "chan set"
  next_chan :: chan
  tasks :: "'r task list"
  trace :: "(nat \<times> 'r effect) list"

text \<open>The zero value of the struct, before any call, with no goroutine started.\<close>

definition zero_Replicator :: "'r world" where
  "zero_Replicator =
     \<lparr>logger = None, servers = None, closed = False, close = None,
      closed_chans = {}, next_chan = 0, tasks = [], trace = []\<rparr>"

definition make_chan :: "'r world \<Rightarrow> chan \<times> 'r world" where
  "make_chan w = (next_chan w, w\<lparr>next_chan := Suc (next_chan w)\<rparr>)"

text \<open>Go's \<open>close(c)\<close> panics when \<open>c\<close> is closed already.\<close>

definition close_chan :: "chan \<Rightarrow> 'r world \<Rightarrow> failure + 'r world" where
  "close_chan c w =
     (if c \<in> closed_chans w then Inl (Panic ''close of closed channel'')
      else Inr (w\<lparr>closed_chans := insert c (closed_chans w)\<rparr>))"

text \<open>
  \<^verbatim>\<open>if r.logger == nil { r.logger = zap.L().Named("replicator") }
  if r.servers == nil { r.servers = make(map[string]chan struct{}) }
  if r.close == nil { r.close = make(chan struct{}) }\<close>
\<close>

definition init :: "'r world \<Rightarrow> 'r world" where
  "init w =
     (let w1 = (if logger w = None then w\<lparr>logger := Some ''replicator''\<rparr> else w);
          w2 = (if servers w1 = None then w1\<lparr>servers := Some Map.empty\<rparr> else w1)
      in if close w2 = None
         then (case make_chan w2 of (c, w3) \<Rightarrow> w3\<lparr>close := Some c\<rparr>)
         else w2)"

definition new_task :: "string \<Rightarrow> chan \<Rightarrow> 'r task" where
  "new_task a c = \<lparr>addr = a, stopCh = c, main = AtDial, rx = NotStarted\<rparr>"

text \<open>
  \<^verbatim>\<open>r.init()
  if r.closed { return nil }
  if _, ok := r.servers[name]; ok { return nil }
  stopCh := make(chan struct{})
  r.servers[name] = stopCh
  go r.replicate(addr, stopCh)
  return nil\<close>
  \<open>Inr\<close> is the state after a return of nil.  Assigning into a nil map would panic.
\<close>

definition Join :: "string \<Rightarrow> string \<Rightarrow> 'r world \<Rightarrow> failure + 'r world" where
  "Join name a w =
     (let w1 = init w in
      if closed w1 then Inr w1
      else (case servers w1 of
              None \<Rightarrow> Inl (Panic ''assignment to entry in nil map'')
            | Some m \<Rightarrow>
                (case m name of
                   Some c \<Rightarrow> Inr w1
                 | None \<Rightarrow>
                     (case make_chan w1 of (c, w2) \<Rightarrow>
                        Inr (w2\<lparr>servers := Some (m(name \<mapsto> c)),
                                tasks := tasks w2 @ [new_task a c]\<rparr>)))))"

text \<open>
  \<^verbatim>\<open>r.init()
  if stopCh, ok := r.servers[name]; ok { close(stopCh); delete(r.servers, name) }
  return nil\<close>
\<close>

definition Leave :: "string \<Rightarrow> 'r world \<Rightarrow> failure + 'r world" where
  "Leave name w =
     (let w1 = init w in
      case servers w1 of
        None \<Rightarrow> Inr w1
      | Some m \<Rightarrow>
          (case m name of
             None \<Rightarrow> Inr w1
           | Some c \<Rightarrow>
               (case close_chan c w1 of
                  Inl p \<Rightarrow> Inl p
                | Inr w2 \<Rightarrow> Inr (w2\<lparr>servers := Some (m(name := None))\<rparr>))))"

text \<open>
  \<^verbatim>\<open>r.init()
  if r.closed { return nil }
  r.closed = true
  close(r.close)
  r.servers = nil
  return nil\<close>
\<close>

definition Close :: "'r world \<Rightarrow> failure + 'r world" where
  "Close w =
     (let w1 = init w in
      if closed w1 then Inr w1
      else (let w2 = w1\<lparr>closed := True\<rparr> in
            case close w2 of
              None \<Rightarrow> Inl (Panic ''close of nil channel'')
            | Some c \<Rightarrow>
                (case close_chan c w2 of
                   Inl p \<Rightarrow> Inl p
                 | Inr w3 \<Rightarrow> Inr (w3\<lparr>servers := None\<rparr>))))"

text \<open>
  The body of \<open>replicate\<close> meets the outside at six points, and at each the outside
  decides what happens next: what \<open>grpc.Dial\<close> returns, what \<open>client.ConsumeStream\<close>
  returns, what \<open>stream.Recv()\<close> returns in the receiving goroutine, and which case the
  \<open>select\<close> of the loop takes (with the error of \<open>LocalServer.Produce\<close> when it takes a
  record).
\<close>

datatype 'r event =
    DialReturns "failure option"
  | ConsumeStreamReturns "failure option"
  | RecvReturns "failure + 'r"
  | SelectClose
  | SelectStop
  | SelectRecord "failure option"

text \<open>
  One step of \<open>replicate(addr, stopCh)\<close>: the task after the event and what it did, or
  \<open>None\<close> when the event cannot happen in this state.  \<open>close_ready\<close> and \<open>stop_ready\<close> say
  whether \<open>r.close\<close> and \<open>stopCh\<close> are closed: a receive from a closed channel is ready, one
  from an open channel on which nobody sends is not.
  \<^verbatim>\<open>conn, err := grpc.Dial(addr, r.DialOptions...)
  if err != nil { r.logError(err, "failed to dial", addr); return }
  defer conn.Close()
  client := api.NewLogClient(conn)
  stream, err := client.ConsumeStream(ctx, &api.ConsumeRequest{Offset: 0})
  if err != nil { r.logError(err, "failed to consume", addr); return }
  records := make(chan *api.Record)
  go func() {
      for {
          recv, err := stream.Recv()
          if err != nil { r.logError(err, "failed to receive", addr); return }
          records <- recv.Record
      }
  }()
  for {
      select {
      case <-r.close: return
      case <-stopCh: return
      case record := <-records:
          _, err := r.LocalServer.Produce(ctx, &api.ProduceRequest{Record: record})
          if err != nil { r.logError(err, "failed to produce", addr); return }
      }
  }\<close>
  The \<open>return\<close> after a receive error is the return of the receiving goroutine only: the
  loop of \<open>replicate\<close> is a different goroutine and stays in its \<open>select\<close>.
\<close>

definition replicate_step ::
  "bool \<Rightarrow> bool \<Rightarrow> 'r task \<Rightarrow> 'r event \<Rightarrow> ('r task \<times> 'r effect list) option" where
  "replicate_step close_ready stop_ready t ev =
     (case ev of
        DialReturns err \<Rightarrow>
          if main t \<noteq> AtDial then None
          else (case err of
                  Some e \<Rightarrow> Some (t\<lparr>main := Returned\<rparr>,
                                    [DialCall (addr t), LogError e ''failed to dial'' (addr t)])
                | None \<Rightarrow> Some (t\<lparr>main := AtConsumeStream\<rparr>, [DialCall (addr t)]))
      | ConsumeStreamReturns err \<Rightarrow>
          if main t \<noteq> AtConsumeStream then None
          else (case err of
                  Some e \<Rightarrow> Some (t\<lparr>main := Returned\<rparr>,
                                    [ConsumeStreamCall (addr t) 0,
                                     LogError e ''failed to consume'' (addr t), ConnClose (addr t)])
                | None \<Rightarrow> Some (t\<lparr>main := AtSelect, rx := Receiving\<rparr>,
                                 [ConsumeStreamCall (addr t) 0]))
      | RecvReturns res \<Rightarrow>
          if rx t \<noteq> Receiving then None
          else (case res of
                  Inl e \<Rightarrow> Some (t\<lparr>rx := Exited\<rparr>, [LogError e ''failed to receive'' (addr t)])
                | Inr r \<Rightarrow> Some (t\<lparr>rx := Holding r\<rparr>, []))
      | SelectClose \<Rightarrow>
          if main t = AtSelect \<and> close_ready
          then Some (t\<lparr>main := Returned\<rparr>, [ConnClose (addr t)]) else None
      | SelectStop \<Rightarrow>
          if main t = AtSelect \<and> stop_ready
          then Some (t\<lparr>main := Returned\<rparr>, [ConnClose (addr t)]) else None
      | SelectRecord err \<Rightarrow>
          if main t \<noteq> AtSelect then None
          else (case rx t of
                  Holding r \<Rightarrow>
                    (case err of
                       Some e \<Rightarrow> Some (t\<lparr>main := Returned, rx := Receiving\<rparr>,
                                         [ProduceCall r, LogError e ''failed to produce'' (addr t),
                                          ConnClose (addr t)])
                     | None \<Rightarrow> Some (t\<lparr>rx := Receiving\<rparr>, [ProduceCall r]))
                | _ \<Rightarrow> None))"

text \<open>A receive from a nil channel blocks for ever; one from a closed channel is ready.\<close>

definition chan_closed :: "'r world \<Rightarrow> chan option \<Rightarrow> bool" where
  "chan_closed w ch = (case ch of None \<Rightarrow> False | Some c \<Rightarrow> c \<in> closed_chans w)"

text \<open>
  The whole system moves by calls of the three methods (by the membership handler) and
  by steps of the started goroutines, in any interleaving.  \<open>step\<close> is \<open>None\<close> when the
  action cannot happen, \<open>Some (Inl p)\<close> when it panics, \<open>Some (Inr w')\<close> otherwise.  The
  trace records what each task did, tagged with the task's position in \<open>tasks\<close>.
\<close>

datatype 'r action =
    DoJoin string string
  | DoLeave string
  | DoClose
  | TaskStep nat "'r event"

definition step :: "'r world \<Rightarrow> 'r action \<Rightarrow> (failure + 'r world) option" where
  "step w a =
     (case a of
        DoJoin name ad \<Rightarrow> Some (Join name ad w)
      | DoLeave name \<Rightarrow> Some (Leave name w)
      | DoClose \<Rightarrow> Some (Close w)
      | TaskStep i ev \<Rightarrow>
          if i < length (tasks w)
          then (case replicate_step (chan_closed w (close w))
                       (chan_closed w (Some (stopCh (tasks w ! i)))) (tasks w ! i) ev of
                  None \<Rightarrow> None
                | Some (t', effs) \<Rightarrow>
                    Some (Inr (w\<lparr>tasks := (tasks w)[i := t'],
                                  trace := trace w @ map (Pair i) effs\<rparr>)))
          else None)"

fun run :: "'r world \<Rightarrow> 'r action list \<Rightarrow> (failure + 'r world) option" where
  "run w [] = Some (Inr w)"
| "run w (a # as) =
     (case step w a of
        Some (Inr w') \<Rightarrow> run w' as
      | other \<Rightarrow> other)"

text \<open>The peer map as a mapping: a nil map and an empty map hold the same entries.\<close>

definition peers :: "'r world \<Rightarrow> (string \<rightharpoonup> chan)" where
  "peers w = (case servers w of None \<Rightarrow> Map.empty | Some m \<Rightarrow> m)"

text \<open>The events of a stream that delivers the records \<open>rs\<close> one after the other, each
  taken by the loop and produced without error.\<close>

definition replay :: "nat \<Rightarrow> 'r list \<Rightarrow> 'r action list" where
  "replay i rs = concat (map (\<lambda>r. [TaskStep i (RecvReturns (Inr r)), TaskStep i (SelectRecord None)]) rs)"

subsection \<open>Properties of the replicator\<close>

lemma peers_init [simp]: "peers (init w) = peers w"
  by (auto simp: peers_def init_def make_chan_def Let_def split: option.splits)

lemma servers_init [simp]: "servers (init w) = Some (peers w)"
  by (auto simp: peers_def init_def make_chan_def Let_def split: option.splits)

lemma closed_init [simp]: "closed (init w) = closed w"
  by (auto simp: init_def make_chan_def Let_def split: option.splits)

lemma closed_chans_init [simp]: "closed_chans (init w) = closed_chans w"
  by (auto simp: init_def make_chan_def Let_def split: option.splits)

lemma tasks_init [simp]: "tasks (init w) = tasks w"
  by (auto simp: init_def make_chan_def Let_def split: option.splits)

lemma trace_init [simp]: "trace (init w) = trace w"
  by (auto simp: init_def make_chan_def Let_def split: option.splits)

lemma close_init [simp]:
  "close (init w) = Some (case close w of None \<Rightarrow> next_chan w | Some c \<Rightarrow> c)"
  by (auto simp: init_def make_chan_def Let_def split: option.splits)

lemma next_chan_init [simp]:
  "next_chan (init w) = (if close w = None then Suc (next_chan w) else next_chan w)"
  by (auto simp: init_def make_chan_def Let_def split: option.splits)

lemma Join_noop:
  "closed w \<or> peers w name \<noteq> None \<Longrightarrow> Join name a w = Inr (init w)"
  by (auto simp: Join_def Let_def split: option.splits)

lemma Join_new:
  "\<not> closed w \<Longrightarrow> peers w name = None \<Longrightarrow>
   Join name a w =
     Inr ((init w)\<lparr>next_chan := Suc (next_chan (init w)),
                   servers := Some ((peers w)(name \<mapsto> next_chan (init w))),
                   tasks := tasks w @ [new_task a (next_chan (init w))]\<rparr>)"
  by (auto simp: Join_def Let_def make_chan_def split: option.splits)

lemma Leave_unknown:
  "peers w name = None \<Longrightarrow> Leave name w = Inr (init w)"
  by (auto simp: Leave_def Let_def split: option.splits)

lemma Leave_known:
  "peers w name = Some c \<Longrightarrow> c \<notin> closed_chans w \<Longrightarrow>
   Leave name w =
     Inr ((init w)\<lparr>closed_chans := insert c (closed_chans w),
                   servers := Some ((peers w)(name := None))\<rparr>)"
  by (auto simp: Leave_def Let_def close_chan_def split: option.splits)

lemma Close_closed: "closed w \<Longrightarrow> Close w = Inr (init w)"
  by (auto simp: Close_def Let_def)

lemma Close_open:
  "\<not> closed w \<Longrightarrow> close (init w) = Some k \<Longrightarrow> k \<notin> closed_chans w \<Longrightarrow>
   Close w = Inr ((init w)\<lparr>closed := True, closed_chans := insert k (closed_chans w), servers := None\<rparr>)"
  by (auto simp: Close_def Let_def close_chan_def split: option.splits)


text \<open>The stop channels of the started goroutines, in the order they were started.\<close>

definition stops :: "'r world \<Rightarrow> chan list" where
  "stops w = map stopCh (tasks w)"

text \<open>
  What holds of every state the three methods and the goroutines can reach from the zero
  value: channel numbers in use lie below the next one to hand out; a tracked peer's stop
  channel is open, is not \<open>r.close\<close>, is tracked for no other peer and belongs to a started
  goroutine; \<open>r.close\<close> is closed exactly when \<open>r.closed\<close> is set; a closed replicator tracks
  nobody; no two goroutines share a stop channel.
\<close>

definition replicator_inv :: "'r world \<Rightarrow> bool" where
  "replicator_inv w \<longleftrightarrow>
     (\<forall>c \<in> closed_chans w. c < next_chan w)
   \<and> (\<forall>n c. peers w n = Some c \<longrightarrow> c < next_chan w \<and> c \<notin> closed_chans w \<and> close w \<noteq> Some c)
   \<and> (\<forall>n n' c. peers w n = Some c \<longrightarrow> peers w n' = Some c \<longrightarrow> n = n')
   \<and> (\<forall>k. close w = Some k \<longrightarrow> k < next_chan w \<and> (k \<in> closed_chans w \<longleftrightarrow> closed w))
   \<and> (closed w \<longrightarrow> close w \<noteq> None \<and> peers w = Map.empty)
   \<and> distinct (stops w)
   \<and> (\<forall>c \<in> set (stops w). c < next_chan w \<and> close w \<noteq> Some c)
   \<and> (\<forall>n c. peers w n = Some c \<longrightarrow> c \<in> set (stops w))"

lemma peers_upd [simp]: "peers (w\<lparr>servers := Some m\<rparr>) = m"
  by (simp add: peers_def)

lemma peers_upd_None [simp]: "peers (w\<lparr>servers := None\<rparr>) = Map.empty"
  by (simp add: peers_def)

lemma peers_other_upd [simp]:
  "peers (w\<lparr>closed_chans := cc\<rparr>) = peers w"
  "peers (w\<lparr>next_chan := nc\<rparr>) = peers w"
  "peers (w\<lparr>tasks := ts\<rparr>) = peers w"
  "peers (w\<lparr>trace := tr\<rparr>) = peers w"
  "peers (w\<lparr>closed := b\<rparr>) = peers w"
  by (simp_all add: peers_def)

lemma stops_upd [simp]:
  "stops (w\<lparr>closed_chans := cc\<rparr>) = stops w"
  "stops (w\<lparr>next_chan := nc\<rparr>) = stops w"
  "stops (w\<lparr>servers := sv\<rparr>) = stops w"
  "stops (w\<lparr>trace := tr\<rparr>) = stops w"
  "stops (w\<lparr>closed := b\<rparr>) = stops w"
  "stops (w\<lparr>tasks := ts\<rparr>) = map stopCh ts"
  "stops (init w) = stops w"
  by (simp_all add: stops_def)

lemma inv_zero: "replicator_inv zero_Replicator"
  by (simp add: replicator_inv_def zero_Replicator_def peers_def stops_def)

lemma inv_init: "replicator_inv w \<Longrightarrow> replicator_inv (init w)"
  unfolding replicator_inv_def
  apply (cases "close w")
   apply (simp_all)
   apply (auto simp: less_Suc_eq)
  done

lemma inv_parts:
  assumes "replicator_inv v"
  shows "\<forall>c \<in> closed_chans v. c < next_chan v"
    and "\<forall>n c. peers v n = Some c \<longrightarrow> c < next_chan v \<and> c \<notin> closed_chans v \<and> close v \<noteq> Some c"
    and "\<forall>n n' c. peers v n = Some c \<longrightarrow> peers v n' = Some c \<longrightarrow> n = n'"
    and "\<forall>k. close v = Some k \<longrightarrow> k < next_chan v \<and> (k \<in> closed_chans v \<longleftrightarrow> closed v)"
    and "closed v \<longrightarrow> close v \<noteq> None \<and> peers v = Map.empty"
    and "distinct (stops v)"
    and "\<forall>c \<in> set (stops v). c < next_chan v \<and> close v \<noteq> Some c"
    and "\<forall>n c. peers v n = Some c \<longrightarrow> c \<in> set (stops v)"
  using assms unfolding replicator_inv_def by blast+

lemma inv_spawn:
  assumes i: "replicator_inv v" and un: "peers v name = None" and nc: "\<not> closed v"
  shows "replicator_inv (v\<lparr>next_chan := Suc (next_chan v),
                servers := Some ((peers v)(name \<mapsto> next_chan v)),
                tasks := tasks v @ [new_task a (next_chan v)]\<rparr>)"
proof -
  note p = inv_parts [OF i]
  have fresh_cc: "next_chan v \<notin> closed_chans v" using p(1) by auto
  have fresh_ts: "next_chan v \<notin> set (stops v)" using p(7) by auto
  have fresh_p: "peers v n \<noteq> Some (next_chan v)" for n using p(2) by (metis less_irrefl)
  have fresh_cl: "close v \<noteq> Some (next_chan v)" using p(4) by (metis less_irrefl)
  have st: "map stopCh (tasks v) = stops v" by (simp add: stops_def)
  show ?thesis
    unfolding replicator_inv_def
    using p fresh_cc fresh_ts fresh_p fresh_cl un nc
    by (auto simp: new_task_def less_Suc_eq st split: if_splits)
qed

lemma inv_drop:
  assumes i: "replicator_inv v" and kn: "peers v name = Some c"
  shows "replicator_inv (v\<lparr>closed_chans := insert c (closed_chans v),
                servers := Some ((peers v)(name := None))\<rparr>)"
proof -
  note p = inv_parts [OF i]
  have ncl: "\<not> closed v" using p(5) kn by auto
  show ?thesis
    unfolding replicator_inv_def
    using p kn ncl
    by (auto split: if_splits)
qed

lemma inv_shut:
  assumes i: "replicator_inv v" and k: "close v = Some k" and nc: "\<not> closed v"
  shows "replicator_inv (v\<lparr>closed := True, closed_chans := insert k (closed_chans v), servers := None\<rparr>)"
proof -
  note p = inv_parts [OF i]
  show ?thesis
    unfolding replicator_inv_def
    using p k nc
    by (auto split: if_splits)
qed

lemma inv_Join: assumes "replicator_inv w" "Join name a w = Inr w'" shows "replicator_inv w'"
proof (cases "closed w \<or> peers w name \<noteq> None")
  case True
  with assms Join_noop [OF True, of a] have "w' = init w" by simp
  with assms(1) show ?thesis by (simp add: inv_init)
next
  case False
  then have nc: "\<not> closed w" and un: "peers w name = None" by auto
  have i: "replicator_inv (init w)" using assms(1) by (rule inv_init)
  from Join_new [OF nc un, of a] assms(2)
  have w': "w' = (init w)\<lparr>next_chan := Suc (next_chan (init w)),
                   servers := Some ((peers (init w))(name \<mapsto> next_chan (init w))),
                   tasks := tasks (init w) @ [new_task a (next_chan (init w))]\<rparr>" by simp
  show ?thesis unfolding w'
    by (rule inv_spawn [OF i]) (simp_all add: un nc)
qed

lemma Join_never_panics: "\<exists>w'. Join name a w = Inr w'"
  by (cases "closed w \<or> peers w name \<noteq> None") (auto simp: Join_noop Join_new)

lemma inv_Leave: assumes "replicator_inv w" shows "\<exists>w'. Leave name w = Inr w' \<and> replicator_inv w'"
proof (cases "peers w name")
  case None
  with assms show ?thesis by (simp add: Leave_unknown inv_init)
next
  case (Some c)
  have i: "replicator_inv (init w)" using assms by (rule inv_init)
  from inv_parts(2) [OF assms] Some have open_c: "c \<notin> closed_chans w" by blast
  have "replicator_inv ((init w)\<lparr>closed_chans := insert c (closed_chans (init w)),
                servers := Some ((peers (init w))(name := None))\<rparr>)"
    by (rule inv_drop [OF i]) (simp add: Some)
  with Leave_known [OF Some open_c] show ?thesis by simp
qed

lemma inv_Close: assumes "replicator_inv w" shows "\<exists>w'. Close w = Inr w' \<and> replicator_inv w' \<and> closed w'"
proof (cases "closed w")
  case True
  with assms show ?thesis by (simp add: Close_closed inv_init)
next
  case False
  have i: "replicator_inv (init w)" using assms by (rule inv_init)
  obtain k where k: "close (init w) = Some k" by simp
  from inv_parts(4) [OF i] k False have open_k: "k \<notin> closed_chans w" by auto
  have "replicator_inv ((init w)\<lparr>closed := True, closed_chans := insert k (closed_chans (init w)), servers := None\<rparr>)"
    by (rule inv_shut [OF i k]) (simp add: False)
  with Close_open [OF False k open_k] show ?thesis by simp
qed

lemma replicate_keeps:
  "replicate_step cr sr t ev = Some (t', effs) \<Longrightarrow> stopCh t' = stopCh t \<and> addr t' = addr t"
  by (auto simp: replicate_step_def split: event.splits if_splits option.splits sum.splits receiver.splits)

lemma TaskStep_result:
  assumes "step w (TaskStep i ev) = Some (Inr w')"
  shows "i < length (tasks w) \<and> (\<exists>t' effs.
           replicate_step (chan_closed w (close w)) (chan_closed w (Some (stopCh (tasks w ! i)))) (tasks w ! i) ev
             = Some (t', effs)
           \<and> w' = w\<lparr>tasks := (tasks w)[i := t'], trace := trace w @ map (Pair i) effs\<rparr>)"
  using assms by (auto simp: step_def split: if_splits option.splits)

lemma stops_TaskStep:
  assumes "step w (TaskStep i ev) = Some (Inr w')"
  shows "stops w' = stops w"
proof -
  from TaskStep_result [OF assms] obtain t' effs where
    i: "i < length (tasks w)" and
    r: "replicate_step (chan_closed w (close w)) (chan_closed w (Some (stopCh (tasks w ! i)))) (tasks w ! i) ev
             = Some (t', effs)" and
    w': "w' = w\<lparr>tasks := (tasks w)[i := t'], trace := trace w @ map (Pair i) effs\<rparr>" by blast
  from replicate_keeps [OF r] have "stopCh t' = stopCh (tasks w ! i)" by simp
  then have "map stopCh ((tasks w)[i := t']) = map stopCh (tasks w)"
    using i by (simp add: map_update list_update_same_conv)
  then show ?thesis by (simp add: w' stops_def)
qed

lemma inv_TaskStep:
  assumes "step w (TaskStep i ev) = Some (Inr w')" and "replicator_inv w"
  shows "replicator_inv w'"
proof -
  have s: "stops w' = stops w" using assms(1) by (rule stops_TaskStep)
  from TaskStep_result [OF assms(1)] obtain t' effs where
    w': "w' = w\<lparr>tasks := (tasks w)[i := t'], trace := trace w @ map (Pair i) effs\<rparr>" by blast
  have "peers w' = peers w" "closed_chans w' = closed_chans w" "next_chan w' = next_chan w"
       "close w' = close w" "closed w' = closed w"
    by (simp_all add: w')
  with s assms(2) show ?thesis by (simp add: replicator_inv_def)
qed

lemma inv_step:
  assumes "step w a = Some (Inr w')" and "replicator_inv w"
  shows "replicator_inv w'"
proof (cases a)
  case (DoJoin name ad)
  with assms show ?thesis by (auto simp: step_def intro: inv_Join)
next
  case (DoLeave name)
  with assms inv_Leave [OF assms(2), of name] show ?thesis by (auto simp: step_def)
next
  case DoClose
  with assms inv_Close [OF assms(2)] show ?thesis by (auto simp: step_def)
next
  case (TaskStep i ev)
  with assms show ?thesis by (auto intro: inv_TaskStep)
qed

lemma run_Cons_Inr:
  "run w (a # as) = Some (Inr w') \<longleftrightarrow> (\<exists>w1. step w a = Some (Inr w1) \<and> run w1 as = Some (Inr w'))"
  by (auto split: option.splits sum.splits)

lemma inv_run:
  "run w as = Some (Inr w') \<Longrightarrow> replicator_inv w \<Longrightarrow> replicator_inv w'"
proof (induction as arbitrary: w)
  case Nil
  then show ?case by simp
next
  case (Cons a as)
  from Cons.prems(1) obtain w1 where s: "step w a = Some (Inr w1)" and r: "run w1 as = Some (Inr w')"
    unfolding run_Cons_Inr by blast
  from Cons.IH [OF r inv_step [OF s Cons.prems(2)]] show ?case .
qed


lemma run_step: "step w a = Some (Inr w1) \<Longrightarrow> run w (a # as) = run w1 as"
  by simp

lemma replay_Cons:
  "replay i (r # rs) = TaskStep i (RecvReturns (Inr r)) # TaskStep i (SelectRecord None) # replay i rs"
  by (simp add: replay_def)

lemma replay_Nil: "replay i [] = []"
  by (simp add: replay_def)

lemma run_replay:
  assumes "i < length (tasks w)" "main (tasks w ! i) = AtSelect" "rx (tasks w ! i) = Receiving"
  shows "\<exists>w'. run w (replay i rs) = Some (Inr w')
            \<and> trace w' = trace w @ map (\<lambda>r. (i, ProduceCall r)) rs"
  using assms
proof (induction rs arbitrary: w)
  case Nil
  show ?case by (simp add: replay_Nil)
next
  case (Cons r rs)
  let ?t = "tasks w ! i"
  let ?w1 = "w\<lparr>tasks := (tasks w)[i := ?t\<lparr>rx := Holding r\<rparr>], trace := trace w @ []\<rparr>"
  let ?w2 = "?w1\<lparr>tasks := (tasks ?w1)[i := (tasks ?w1 ! i)\<lparr>rx := Receiving\<rparr>],
                  trace := trace ?w1 @ [(i, ProduceCall r)]\<rparr>"
  have s1: "step w (TaskStep i (RecvReturns (Inr r))) = Some (Inr ?w1)"
    using Cons.prems by (simp add: step_def replicate_step_def)
  have s2: "step ?w1 (TaskStep i (SelectRecord None)) = Some (Inr ?w2)"
    using Cons.prems by (simp add: step_def replicate_step_def)
  have "i < length (tasks ?w2)" "main (tasks ?w2 ! i) = AtSelect" "rx (tasks ?w2 ! i) = Receiving"
    using Cons.prems by simp_all
  from Cons.IH [OF this] obtain w' where
    r: "run ?w2 (replay i rs) = Some (Inr w')" and
    t: "trace w' = trace ?w2 @ map (\<lambda>r. (i, ProduceCall r)) rs" by blast
  have "run w (replay i (r # rs)) = Some (Inr w')"
    by (simp only: replay_Cons run_step [OF s1] run_step [OF s2] r)
  moreover have "trace w' = trace w @ map (\<lambda>r. (i, ProduceCall r)) (r # rs)"
    using t by simp
  ultimately show ?case by blast
qed

lemma run_fresh_task:
  assumes "i < length (tasks w)" "tasks w ! i = new_task a c"
  shows "\<exists>w'. run w (TaskStep i (DialReturns None) # TaskStep i (ConsumeStreamReturns None) # replay i rs)
                = Some (Inr w')
            \<and> trace w' = trace w @ map (Pair i) (DialCall a # ConsumeStreamCall a 0 # map ProduceCall rs)"
proof -
  let ?t1 = "(new_task a c)\<lparr>main := AtConsumeStream\<rparr>"
  let ?w1 = "w\<lparr>tasks := (tasks w)[i := ?t1], trace := trace w @ [(i, DialCall a)]\<rparr>"
  let ?t2 = "?t1\<lparr>main := AtSelect, rx := Receiving\<rparr>"
  let ?w2 = "?w1\<lparr>tasks := (tasks ?w1)[i := ?t2], trace := trace ?w1 @ [(i, ConsumeStreamCall a 0)]\<rparr>"
  have s1: "step w (TaskStep i (DialReturns None)) = Some (Inr ?w1)"
    using assms by (simp add: step_def replicate_step_def new_task_def)
  have s2: "step ?w1 (TaskStep i (ConsumeStreamReturns None)) = Some (Inr ?w2)"
    using assms by (simp add: step_def replicate_step_def new_task_def)
  have "i < length (tasks ?w2)" "main (tasks ?w2 ! i) = AtSelect" "rx (tasks ?w2 ! i) = Receiving"
    using assms by simp_all
  from run_replay [OF this, of rs] obtain w' where
    r: "run ?w2 (replay i rs) = Some (Inr w')" and
    t: "trace w' = trace ?w2 @ map (\<lambda>r. (i, ProduceCall r)) rs" by blast
  have "run w (TaskStep i (DialReturns None) # TaskStep i (ConsumeStreamReturns None) # replay i rs)
          = Some (Inr w')"
    by (simp only: run_step [OF s1] run_step [OF s2] r)
  moreover have "trace w' = trace w @ map (Pair i) (DialCall a # ConsumeStreamCall a 0 # map ProduceCall rs)"
    using t by simp
  ultimately show ?thesis by blast
qed

text \<open>
  C5.  In every replicator state, \<open>Join name a\<close> returns nil and changes neither the peer
  map, the goroutines, what they have done, the closed flag nor any channel when the
  replicator is closed or \<open>name\<close> is tracked already.  Otherwise it tracks \<open>name\<close> with a new
  stop channel \<open>c\<close> and starts one goroutine \<open>replicate(a, c)\<close>; when dialling and opening
  the stream succeed, that goroutine dials \<open>a\<close>, opens the consume stream at offset 0 and,
  for the records \<open>rs\<close> the stream delivers, calls \<open>LocalServer.Produce\<close> (the client of the
  service facade) with each of them, in order.  Within one goroutine no other error-free
  order of events exists: the receiver holds one record until the loop has taken it.
\<close>

theorem Join_registers_and_starts_replication:
  "(closed w \<or> peers w name \<noteq> None \<longrightarrow>
      (\<exists>w'. Join name a w = Inr w' \<and> peers w' = peers w \<and> tasks w' = tasks w
            \<and> trace w' = trace w \<and> closed w' = closed w \<and> closed_chans w' = closed_chans w))
   \<and> (\<not> closed w \<and> peers w name = None \<longrightarrow>
      (\<exists>w' c. Join name a w = Inr w' \<and> peers w' = (peers w)(name \<mapsto> c)
            \<and> tasks w' = tasks w @ [new_task a c]
            \<and> (\<forall>rs. \<exists>w''.
                  run w' (TaskStep (length (tasks w)) (DialReturns None)
                          # TaskStep (length (tasks w)) (ConsumeStreamReturns None)
                          # replay (length (tasks w)) rs) = Some (Inr w'')
                  \<and> trace w'' = trace w @ map (Pair (length (tasks w)))
                                   (DialCall a # ConsumeStreamCall a 0 # map ProduceCall rs))))"
proof (intro conjI impI)
  assume "closed w \<or> peers w name \<noteq> None"
  from Join_noop [OF this, of a]
  show "\<exists>w'. Join name a w = Inr w' \<and> peers w' = peers w \<and> tasks w' = tasks w
            \<and> trace w' = trace w \<and> closed w' = closed w \<and> closed_chans w' = closed_chans w"
    by simp
next
  assume h: "\<not> closed w \<and> peers w name = None"
  let ?c = "next_chan (init w)"
  let ?w' = "(init w)\<lparr>next_chan := Suc ?c, servers := Some ((peers w)(name \<mapsto> ?c)),
                      tasks := tasks w @ [new_task a ?c]\<rparr>"
  have j: "Join name a w = Inr ?w'" using h by (simp add: Join_new)
  have run: "\<exists>w''. run ?w' (TaskStep (length (tasks w)) (DialReturns None)
                          # TaskStep (length (tasks w)) (ConsumeStreamReturns None)
                          # replay (length (tasks w)) rs) = Some (Inr w'')
                  \<and> trace w'' = trace w @ map (Pair (length (tasks w)))
                                   (DialCall a # ConsumeStreamCall a 0 # map ProduceCall rs)" for rs
  proof -
    have "length (tasks w) < length (tasks ?w')" "tasks ?w' ! length (tasks w) = new_task a ?c"
      by simp_all
    from run_fresh_task [OF this, of rs] show ?thesis by simp
  qed
  have "peers ?w' = (peers w)(name \<mapsto> ?c)" "tasks ?w' = tasks w @ [new_task a ?c]" by simp_all
  with j run
  show "\<exists>w' c. Join name a w = Inr w' \<and> peers w' = (peers w)(name \<mapsto> c)
            \<and> tasks w' = tasks w @ [new_task a c]
            \<and> (\<forall>rs. \<exists>w''.
                  run w' (TaskStep (length (tasks w)) (DialReturns None)
                          # TaskStep (length (tasks w)) (ConsumeStreamReturns None)
                          # replay (length (tasks w)) rs) = Some (Inr w'')
                  \<and> trace w'' = trace w @ map (Pair (length (tasks w)))
                                   (DialCall a # ConsumeStreamCall a 0 # map ProduceCall rs))"
    by blast
qed


theorem Join_registers_and_starts_replication_witness:
  "(\<exists>w'. Join ''peer1'' ''10.0.0.1:8400''
            \<lparr>logger = Some ''replicator'', servers = Some [''peer1'' \<mapsto> 1], closed = False,
             close = Some 0, closed_chans = {}, next_chan = 2,
             tasks = [new_task ''10.0.0.1:8400'' 1], trace = []\<rparr> = Inr w'
         \<and> peers w' = [''peer1'' \<mapsto> 1]
         \<and> tasks w' = [new_task ''10.0.0.1:8400'' 1 :: string task])
   \<and> (\<exists>w' c. Join ''peer1'' ''10.0.0.1:8400'' zero_Replicator = Inr w'
         \<and> peers w' = [''peer1'' \<mapsto> c]
         \<and> tasks w' = [new_task ''10.0.0.1:8400'' c]
         \<and> (\<exists>w''. run w' [TaskStep 0 (DialReturns None), TaskStep 0 (ConsumeStreamReturns None),
                            TaskStep 0 (RecvReturns (Inr ''first'')), TaskStep 0 (SelectRecord None),
                            TaskStep 0 (RecvReturns (Inr ''second'')), TaskStep 0 (SelectRecord None)]
                     = Some (Inr w'')
                \<and> trace w'' = [(0, DialCall ''10.0.0.1:8400''), (0, ConsumeStreamCall ''10.0.0.1:8400'' 0),
                                (0, ProduceCall ''first''), (0, ProduceCall ''second'')]))"
proof -
  let ?w1 = "\<lparr>logger = Some ''replicator'', servers = Some [''peer1'' \<mapsto> 1], closed = False,
             close = Some 0, closed_chans = {}, next_chan = 2,
             tasks = [new_task ''10.0.0.1:8400'' 1 :: string task], trace = []\<rparr>"
  have known: "closed ?w1 \<or> peers ?w1 ''peer1'' \<noteq> None" by (simp add: peers_def)
  have fresh: "\<not> closed (zero_Replicator :: string world)
             \<and> peers (zero_Replicator :: string world) ''peer1'' = None"
    by (simp add: peers_def zero_Replicator_def)
  have z: "peers (zero_Replicator :: string world) = Map.empty"
          "tasks (zero_Replicator :: string world) = []"
          "trace (zero_Replicator :: string world) = []"
    by (simp_all add: peers_def zero_Replicator_def)
  from Join_registers_and_starts_replication [of ?w1 "''peer1''" "''10.0.0.1:8400''"] known
  have a: "\<exists>w'. Join ''peer1'' ''10.0.0.1:8400'' ?w1 = Inr w'
         \<and> peers w' = [''peer1'' \<mapsto> 1]
         \<and> tasks w' = [new_task ''10.0.0.1:8400'' 1 :: string task]"
    by (auto simp: peers_def)
  from Join_registers_and_starts_replication
         [of "zero_Replicator :: string world" "''peer1''" "''10.0.0.1:8400''"] fresh
  obtain w' c where j: "Join ''peer1'' ''10.0.0.1:8400'' (zero_Replicator :: string world) = Inr w'"
    and p: "peers w' = [''peer1'' \<mapsto> c]" and t: "tasks w' = [new_task ''10.0.0.1:8400'' c]"
    and r: "\<forall>rs. \<exists>w''.
                  run w' (TaskStep 0 (DialReturns None) # TaskStep 0 (ConsumeStreamReturns None)
                          # replay 0 rs) = Some (Inr w'')
                  \<and> trace w'' = map (Pair 0) (DialCall ''10.0.0.1:8400''
                                   # ConsumeStreamCall ''10.0.0.1:8400'' 0 # map ProduceCall rs)"
    unfolding z by auto
  from r [rule_format, of "[''first'', ''second'']"]
  have "\<exists>w''. run w' [TaskStep 0 (DialReturns None), TaskStep 0 (ConsumeStreamReturns None),
                            TaskStep 0 (RecvReturns (Inr ''first'')), TaskStep 0 (SelectRecord None),
                            TaskStep 0 (RecvReturns (Inr ''second'')), TaskStep 0 (SelectRecord None)]
                     = Some (Inr w'')
                \<and> trace w'' = [(0, DialCall ''10.0.0.1:8400''), (0, ConsumeStreamCall ''10.0.0.1:8400'' 0),
                                (0, ProduceCall ''first''), (0, ProduceCall ''second'')]"
    by (simp add: replay_def)
  with j p t have b: "\<exists>w' c. Join ''peer1'' ''10.0.0.1:8400'' (zero_Replicator :: string world) = Inr w'
         \<and> peers w' = [''peer1'' \<mapsto> c]
         \<and> tasks w' = [new_task ''10.0.0.1:8400'' c]
         \<and> (\<exists>w''. run w' [TaskStep 0 (DialReturns None), TaskStep 0 (ConsumeStreamReturns None),
                            TaskStep 0 (RecvReturns (Inr ''first'')), TaskStep 0 (SelectRecord None),
                            TaskStep 0 (RecvReturns (Inr ''second'')), TaskStep 0 (SelectRecord None)]
                     = Some (Inr w'')
                \<and> trace w'' = [(0, DialCall ''10.0.0.1:8400''), (0, ConsumeStreamCall ''10.0.0.1:8400'' 0),
                                (0, ProduceCall ''first''), (0, ProduceCall ''second'')])"
    by blast
  from a b show ?thesis by blast
qed

text \<open>The records for which task \<open>i\<close> has called \<open>LocalServer.Produce\<close>, read off a trace.\<close>

definition produced :: "nat \<Rightarrow> (nat \<times> 'r effect) list \<Rightarrow> 'r list" where
  "produced i tr =
     concat (map (\<lambda>(j, e). case e of ProduceCall r \<Rightarrow> if j = i then [r] else [] | _ \<Rightarrow> []) tr)"

lemma produced_append [simp]: "produced i (xs @ ys) = produced i xs @ produced i ys"
  by (simp add: produced_def)

lemma produced_other: "j \<noteq> i \<Longrightarrow> produced i (map (Pair j) effs) = []"
  by (induction effs) (auto simp: produced_def split: effect.splits)

lemma replicate_Returned:
  assumes "replicate_step cr sr t ev = Some (t', effs)" "main t = Returned"
  shows "main t' = Returned \<and> produced i (map (Pair j) effs) = []"
  using assms
  by (auto simp: replicate_step_def produced_def split: event.splits if_splits option.splits sum.splits receiver.splits)

lemma Join_tasks:
  assumes "Join name a w = Inr w'"
  shows "trace w' = trace w \<and> closed_chans w' = closed_chans w \<and> closed w' = closed w
       \<and> (tasks w' = tasks w \<or> (\<not> closed w \<and> (\<exists>c. tasks w' = tasks w @ [new_task a c])))"
proof (cases "closed w \<or> peers w name \<noteq> None")
  case True
  from Join_noop [OF this, of a] assms show ?thesis by auto
next
  case False
  then have "\<not> closed w" "peers w name = None" by auto
  from Join_new [OF this, of a] assms \<open>\<not> closed w\<close> show ?thesis by auto
qed

lemma Leave_tasks:
  assumes "Leave name w = Inr w'"
  shows "trace w' = trace w \<and> tasks w' = tasks w \<and> closed w' = closed w
       \<and> closed_chans w \<subseteq> closed_chans w'"
  using assms
  by (auto simp: Leave_def Let_def close_chan_def split: option.splits if_splits)

lemma Close_tasks:
  assumes "Close w = Inr w'"
  shows "trace w' = trace w \<and> tasks w' = tasks w \<and> closed w'
       \<and> closed_chans w \<subseteq> closed_chans w'"
  using assms
  by (auto simp: Close_def Let_def close_chan_def split: option.splits if_splits)

lemma step_Returned:
  assumes s: "step w a = Some (Inr w')" and i: "i < length (tasks w)"
    and r: "main (tasks w ! i) = Returned"
  shows "i < length (tasks w') \<and> main (tasks w' ! i) = Returned
       \<and> produced i (trace w') = produced i (trace w)"
proof (cases a)
  case (DoJoin name ad)
  with s have "Join name ad w = Inr w'" by (simp add: step_def)
  from Join_tasks [OF this] i r show ?thesis by (auto simp: nth_append)
next
  case (DoLeave name)
  with s have "Leave name w = Inr w'" by (simp add: step_def)
  from Leave_tasks [OF this] i r show ?thesis by simp
next
  case DoClose
  with s have "Close w = Inr w'" by (simp add: step_def)
  from Close_tasks [OF this] i r show ?thesis by simp
next
  case (TaskStep j ev)
  from TaskStep_result [OF s [unfolded TaskStep]] obtain t' effs where
    j: "j < length (tasks w)" and
    rp: "replicate_step (chan_closed w (close w)) (chan_closed w (Some (stopCh (tasks w ! j)))) (tasks w ! j) ev
             = Some (t', effs)" and
    w': "w' = w\<lparr>tasks := (tasks w)[j := t'], trace := trace w @ map (Pair j) effs\<rparr>" by blast
  show ?thesis
  proof (cases "j = i")
    case True
    from replicate_Returned [OF rp, of i j] r True
    have "main t' = Returned" "produced i (map (Pair j) effs) = []" by simp_all
    with i True show ?thesis by (simp add: w')
  next
    case False
    with i r show ?thesis by (simp add: w' produced_other)
  qed
qed

lemma run_Returned:
  "run w as = Some (Inr w') \<Longrightarrow> i < length (tasks w) \<Longrightarrow> main (tasks w ! i) = Returned \<Longrightarrow>
   i < length (tasks w') \<and> main (tasks w' ! i) = Returned
     \<and> produced i (trace w') = produced i (trace w)"
proof (induction as arbitrary: w)
  case Nil
  then show ?case by simp
next
  case (Cons a as)
  from Cons.prems(1) obtain w1 where s: "step w a = Some (Inr w1)" and r: "run w1 as = Some (Inr w')"
    unfolding run_Cons_Inr by blast
  from step_Returned [OF s Cons.prems(2,3)]
  have 1: "i < length (tasks w1)" "main (tasks w1 ! i) = Returned"
    and p: "produced i (trace w1) = produced i (trace w)" by simp_all
  from Cons.IH [OF r 1] p show ?case by simp
qed

lemma observe_signal:
  assumes "step v (TaskStep i ev) = Some (Inr v1)" "ev = SelectStop \<or> ev = SelectClose"
  shows "i < length (tasks v1) \<and> main (tasks v1 ! i) = Returned
       \<and> produced i (trace v1) = produced i (trace v)"
proof -
  from TaskStep_result [OF assms(1)] obtain t' effs where
    i: "i < length (tasks v)" and
    rp: "replicate_step (chan_closed v (close v)) (chan_closed v (Some (stopCh (tasks v ! i)))) (tasks v ! i) ev
             = Some (t', effs)" and
    v1: "v1 = v\<lparr>tasks := (tasks v)[i := t'], trace := trace v @ map (Pair i) effs\<rparr>" by blast
  from rp assms(2) have "main t' = Returned" "effs = [ConnClose (addr (tasks v ! i))]"
    by (auto simp: replicate_step_def split: if_splits)
  with i show ?thesis by (simp add: v1 produced_def)
qed

lemma signal_ready:
  assumes "i < length (tasks v)" "main (tasks v ! i) = AtSelect"
  shows "chan_closed v (Some (stopCh (tasks v ! i))) \<Longrightarrow> \<exists>v1. step v (TaskStep i SelectStop) = Some (Inr v1)"
    and "chan_closed v (close v) \<Longrightarrow> \<exists>v1. step v (TaskStep i SelectClose) = Some (Inr v1)"
  using assms by (simp_all add: step_def replicate_step_def)

lemma step_mono:
  assumes "step w a = Some (Inr w')"
  shows "closed_chans w \<subseteq> closed_chans w'"
    and "closed w \<Longrightarrow> closed w' \<and> length (tasks w') = length (tasks w)"
proof -
  show "closed_chans w \<subseteq> closed_chans w'"
  proof (cases a)
    case (DoJoin name ad)
    with assms have "Join name ad w = Inr w'" by (simp add: step_def)
    from Join_tasks [OF this] show ?thesis by simp
  next
    case (DoLeave name)
    with assms have "Leave name w = Inr w'" by (simp add: step_def)
    from Leave_tasks [OF this] show ?thesis by simp
  next
    case DoClose
    with assms have "Close w = Inr w'" by (simp add: step_def)
    from Close_tasks [OF this] show ?thesis by simp
  next
    case (TaskStep j ev)
    from TaskStep_result [OF assms [unfolded TaskStep]] show ?thesis by auto
  qed
  show "closed w' \<and> length (tasks w') = length (tasks w)" if c: "closed w"
  proof (cases a)
    case (DoJoin name ad)
    with assms have "Join name ad w = Inr w'" by (simp add: step_def)
    from Join_tasks [OF this] c show ?thesis by auto
  next
    case (DoLeave name)
    with assms have "Leave name w = Inr w'" by (simp add: step_def)
    from Leave_tasks [OF this] c show ?thesis by simp
  next
    case DoClose
    with assms have "Close w = Inr w'" by (simp add: step_def)
    from Close_tasks [OF this] show ?thesis by simp
  next
    case (TaskStep j ev)
    from TaskStep_result [OF assms [unfolded TaskStep]] c show ?thesis by auto
  qed
qed

lemma run_mono:
  "run w as = Some (Inr w') \<Longrightarrow>
     closed_chans w \<subseteq> closed_chans w' \<and> (closed w \<longrightarrow> closed w' \<and> length (tasks w') = length (tasks w))"
proof (induction as arbitrary: w)
  case Nil
  then show ?case by simp
next
  case (Cons a as)
  from Cons.prems(1) obtain w1 where s: "step w a = Some (Inr w1)" and r: "run w1 as = Some (Inr w')"
    unfolding run_Cons_Inr by blast
  from step_mono [OF s] Cons.IH [OF r] show ?case by auto
qed

lemma inv_closed_ready: "replicator_inv w \<Longrightarrow> closed w \<Longrightarrow> chan_closed w (close w)"
  by (auto simp: replicator_inv_def chan_closed_def split: option.splits)


lemma init_fixed:
  "logger w \<noteq> None \<Longrightarrow> servers w \<noteq> None \<Longrightarrow> close w \<noteq> None \<Longrightarrow> init w = w"
  by (auto simp: init_def Let_def)

lemma logger_init: "logger (init w) \<noteq> None"
  by (auto simp: init_def make_chan_def Let_def split: option.splits)

lemma logger_upd [simp]:
  "logger (w\<lparr>closed_chans := cc\<rparr>) = logger w"
  by simp

lemma init_idem: "init (init w) = init w"
  by (rule init_fixed) (simp_all add: logger_init)

lemma init_fixed_after:
  "init ((init w)\<lparr>closed_chans := cc, servers := Some m\<rparr>) = (init w)\<lparr>closed_chans := cc, servers := Some m\<rparr>"
  by (rule init_fixed) (simp_all add: logger_init)

text \<open>
  C7.  In every state reached from the zero value, \<open>Leave name\<close> returns nil.  When \<open>name\<close>
  is tracked with stop channel \<open>c\<close>, it closes \<open>c\<close> and removes the entry and changes nothing
  else; \<open>c\<close> is the stop channel of a started goroutine and stays closed in every later
  state, so the stop case of that goroutine's \<open>select\<close> is ready from then on.  When \<open>name\<close>
  is not tracked, the peer map, the channels, the goroutines, their trace and the closed
  flag are as before (\<open>init\<close> may have turned a nil map into an empty one and made
  \<open>r.close\<close>).  In both cases a second \<open>Leave name\<close> returns nil and leaves the state
  exactly as the first one left it.  Once a goroutine takes the stop case it has returned, and whatever happens
  afterwards it calls \<open>Produce\<close> for no further record.
\<close>

theorem Leave_stops_and_forgets:
  assumes "run zero_Replicator as = Some (Inr w)"
  shows "(\<forall>c. peers w name = Some c \<longrightarrow>
            (\<exists>w'. Leave name w = Inr w' \<and> peers w' = (peers w)(name := None)
                \<and> closed_chans w' = insert c (closed_chans w)
                \<and> tasks w' = tasks w \<and> trace w' = trace w \<and> closed w' = closed w
                \<and> c \<in> set (stops w')
                \<and> (\<forall>bs v. run w' bs = Some (Inr v) \<longrightarrow> chan_closed v (Some c))))
       \<and> (peers w name = None \<longrightarrow>
            (\<exists>w'. Leave name w = Inr w' \<and> peers w' = peers w
                \<and> closed_chans w' = closed_chans w
                \<and> tasks w' = tasks w \<and> trace w' = trace w \<and> closed w' = closed w))
       \<and> (\<forall>w'. Leave name w = Inr w' \<longrightarrow> Leave name w' = Inr w')
       \<and> (\<forall>v i v1 bs v2.
             step v (TaskStep i SelectStop) = Some (Inr v1) \<longrightarrow> run v1 bs = Some (Inr v2) \<longrightarrow>
               main (tasks v1 ! i) = Returned \<and> main (tasks v2 ! i) = Returned
               \<and> produced i (trace v2) = produced i (trace (v :: 'a world)))"
proof -
  have tracked: "\<exists>w'. Leave name w = Inr w' \<and> peers w' = (peers w)(name := None)
                \<and> closed_chans w' = insert c (closed_chans w)
                \<and> tasks w' = tasks w \<and> trace w' = trace w \<and> closed w' = closed w
                \<and> c \<in> set (stops w')
                \<and> (\<forall>bs v. run w' bs = Some (Inr v) \<longrightarrow> chan_closed v (Some c))"
    if kn: "peers w name = Some c" for c
  proof -
    have i: "replicator_inv w" using assms inv_zero by (rule inv_run)
    from inv_parts(2) [OF i] kn have open_c: "c \<notin> closed_chans w" by blast
    from inv_parts(8) [OF i] kn have task_c: "c \<in> set (stops w)" by blast
    let ?w' = "(init w)\<lparr>closed_chans := insert c (closed_chans w),
                        servers := Some ((peers w)(name := None))\<rparr>"
    have l: "Leave name w = Inr ?w'" using kn open_c by (rule Leave_known)
    have later: "chan_closed v (Some c)" if "run ?w' bs = Some (Inr v)" for bs v
    proof -
      from run_mono [OF that] have "closed_chans ?w' \<subseteq> closed_chans v" by blast
      then show ?thesis by (auto simp: chan_closed_def)
    qed
    show ?thesis
      using l task_c later by (intro exI [of _ ?w']) simp
  qed
  have untracked: "\<exists>w'. Leave name w = Inr w' \<and> peers w' = peers w
                \<and> closed_chans w' = closed_chans w
                \<and> tasks w' = tasks w \<and> trace w' = trace w \<and> closed w' = closed w"
    if "peers w name = None"
    using Leave_unknown [OF that] by simp
  have observed: "main (tasks v1 ! i) = Returned \<and> main (tasks v2 ! i) = Returned
               \<and> produced i (trace v2) = produced i (trace v)"
    if s: "step v (TaskStep i SelectStop) = Some (Inr v1)" and r: "run v1 bs = Some (Inr v2)"
    for v :: "'a world" and i v1 bs v2
  proof -
    from observe_signal [OF s] have 1: "i < length (tasks v1)" "main (tasks v1 ! i) = Returned"
      and p: "produced i (trace v1) = produced i (trace v)" by simp_all
    from run_Returned [OF r 1] p 1 show ?thesis by simp
  qed
  have again: "Leave name w' = Inr w'" if l: "Leave name w = Inr w'" for w'
  proof -
    have "peers w' name = None \<and> init w' = w'"
    proof (cases "peers w name")
      case None
      with l Leave_unknown [OF None] show ?thesis by (auto simp: init_idem)
    next
      case (Some c)
      have i: "replicator_inv w" using assms inv_zero by (rule inv_run)
      from inv_parts(2) [OF i] Some have "c \<notin> closed_chans w" by blast
      from Leave_known [OF Some this] l
      have "w' = (init w)\<lparr>closed_chans := insert c (closed_chans w),
                        servers := Some ((peers w)(name := None))\<rparr>" by simp
      then show ?thesis by (simp add: init_fixed_after)
    qed
    then show ?thesis using Leave_unknown [of w' name] by simp
  qed
  from tracked untracked again observed show ?thesis by blast
qed

text \<open>
  C8 (as amended).  In every state reached from the zero value, \<open>Close\<close> returns nil with
  the replicator marked closed and \<open>r.close\<close> closed.  In every state reached afterwards the
  replicator is still closed, no goroutine has been added, every \<open>Join\<close> returns without
  starting one or changing the peer map, and the close case is ready in the \<open>select\<close> of
  every goroutine that is in its loop; a goroutine whose \<open>select\<close> takes the close case has
  returned and calls \<open>Produce\<close> for no further record, whatever happens afterwards.  The
  \<open>select\<close> gives \<open>r.close\<close> no priority over a record that is ready, so nothing is said
  about the iteration in which the close case is taken.
\<close>

theorem Close_stops_replication:
  assumes "run zero_Replicator as = Some (Inr w)"
  shows "\<exists>w'. Close w = Inr w' \<and> closed w' \<and> chan_closed w' (close w')
            \<and> tasks w' = tasks w \<and> trace w' = trace w
            \<and> (\<forall>bs v. run w' bs = Some (Inr v) \<longrightarrow>
                  closed v \<and> chan_closed v (close v) \<and> length (tasks v) = length (tasks w)
                  \<and> (\<forall>name a. \<exists>v'. Join name a v = Inr v' \<and> tasks v' = tasks v
                                   \<and> peers v' = peers v \<and> trace v' = trace v)
                  \<and> (\<forall>i < length (tasks v). main (tasks v ! i) = AtSelect \<longrightarrow>
                        (\<exists>v1. step v (TaskStep i SelectClose) = Some (Inr v1)
                            \<and> main (tasks v1 ! i) = Returned
                            \<and> (\<forall>cs v2. run v1 cs = Some (Inr v2) \<longrightarrow>
                                  main (tasks v2 ! i) = Returned
                                  \<and> produced i (trace v2) = produced i (trace v)))))"
proof -
  have i: "replicator_inv w" using assms inv_zero by (rule inv_run)
  from inv_Close [OF i] obtain w' where c: "Close w = Inr w'" and i': "replicator_inv w'" and cl: "closed w'"
    by blast
  from Close_tasks [OF c] have tt: "tasks w' = tasks w" "trace w' = trace w" by simp_all
  have later: "closed v \<and> chan_closed v (close v) \<and> length (tasks v) = length (tasks w)
                  \<and> (\<forall>name a. \<exists>v'. Join name a v = Inr v' \<and> tasks v' = tasks v
                                   \<and> peers v' = peers v \<and> trace v' = trace v)
                  \<and> (\<forall>i < length (tasks v). main (tasks v ! i) = AtSelect \<longrightarrow>
                        (\<exists>v1. step v (TaskStep i SelectClose) = Some (Inr v1)
                            \<and> main (tasks v1 ! i) = Returned
                            \<and> (\<forall>cs v2. run v1 cs = Some (Inr v2) \<longrightarrow>
                                  main (tasks v2 ! i) = Returned
                                  \<and> produced i (trace v2) = produced i (trace v))))"
    if r: "run w' bs = Some (Inr v)" for bs v
  proof -
    have iv: "replicator_inv v" using r i' by (rule inv_run)
    from run_mono [OF r] cl tt have cv: "closed v" and len: "length (tasks v) = length (tasks w)"
      by simp_all
    have ready: "chan_closed v (close v)" using iv cv by (rule inv_closed_ready)
    have join: "\<exists>v'. Join name a v = Inr v' \<and> tasks v' = tasks v
                                   \<and> peers v' = peers v \<and> trace v' = trace v" for name a
      using Join_noop [of v name a] cv by simp
    have obs: "\<exists>v1. step v (TaskStep i SelectClose) = Some (Inr v1)
                            \<and> main (tasks v1 ! i) = Returned
                            \<and> (\<forall>cs v2. run v1 cs = Some (Inr v2) \<longrightarrow>
                                  main (tasks v2 ! i) = Returned
                                  \<and> produced i (trace v2) = produced i (trace v))"
      if "i < length (tasks v)" "main (tasks v ! i) = AtSelect" for i
    proof -
      from signal_ready(2) [OF that ready] obtain v1
        where s: "step v (TaskStep i SelectClose) = Some (Inr v1)" ..
      from observe_signal [OF s] have 1: "i < length (tasks v1)" "main (tasks v1 ! i) = Returned"
        and p: "produced i (trace v1) = produced i (trace v)" by simp_all
      have "main (tasks v2 ! i) = Returned \<and> produced i (trace v2) = produced i (trace v)"
        if "run v1 cs = Some (Inr v2)" for cs v2
        using run_Returned [OF that 1] p by simp
      with s 1 show ?thesis by blast
    qed
    from cv ready len join obs show ?thesis by blast
  qed
  from c cl inv_closed_ready [OF i' cl] tt later show ?thesis by blast
qed


lemmas replicator_eval =
  step_def Join_def Leave_def Close_def init_def make_chan_def close_chan_def new_task_def
  replicate_step_def chan_closed_def zero_Replicator_def peers_def produced_def stops_def Let_def

text \<open>A state used in the examples below: \<open>peer1\<close> has joined, its goroutine has dialled,
  opened the stream and waits in its loop.\<close>

definition peer1_joined :: "string action list" where
  "peer1_joined =
     [DoJoin ''peer1'' ''10.0.0.1:8400'', TaskStep 0 (DialReturns None),
      TaskStep 0 (ConsumeStreamReturns None)]"

definition peer1_replicating :: "string world" where
  "peer1_replicating =
     \<lparr>logger = Some ''replicator'', servers = Some [''peer1'' \<mapsto> 1], closed = False,
      close = Some 0, closed_chans = {}, next_chan = 2,
      tasks = [\<lparr>addr = ''10.0.0.1:8400'', stopCh = 1, main = AtSelect, rx = Receiving\<rparr>],
      trace = [(0, DialCall ''10.0.0.1:8400''), (0, ConsumeStreamCall ''10.0.0.1:8400'' 0)]\<rparr>"

lemma run_peer1_joined: "run zero_Replicator peer1_joined = Some (Inr peer1_replicating)"
  by (simp add: peer1_joined_def peer1_replicating_def replicator_eval)

theorem Leave_stops_and_forgets_witness:
  "run zero_Replicator peer1_joined = Some (Inr peer1_replicating)
   \<and> (\<exists>w'. Leave ''peer1'' peer1_replicating = Inr w' \<and> peers w' = Map.empty
          \<and> closed_chans w' = {1} \<and> tasks w' = tasks peer1_replicating \<and> 1 \<in> set (stops w')
          \<and> (\<exists>v1 v2. step w' (TaskStep 0 SelectStop) = Some (Inr v1)
                \<and> run v1 [TaskStep 0 (RecvReturns (Inr ''late''))] = Some (Inr v2)
                \<and> main (tasks v2 ! 0) = Returned
                \<and> produced 0 (trace v2) = []))
   \<and> (\<exists>w'. Leave ''peer2'' peer1_replicating = Inr w' \<and> peers w' = [''peer1'' \<mapsto> 1]
          \<and> closed_chans w' = {} \<and> tasks w' = tasks peer1_replicating)"
proof -
  note tracked = Leave_stops_and_forgets [OF run_peer1_joined, THEN conjunct1, rule_format]
  note untracked = Leave_stops_and_forgets [OF run_peer1_joined, THEN conjunct2, THEN conjunct1,
      rule_format]
  note observed = Leave_stops_and_forgets [OF run_peer1_joined, of "''peer1''", THEN conjunct2,
      THEN conjunct2, THEN conjunct2, rule_format]
  have p1: "peers peer1_replicating ''peer1'' = Some 1"
    and p2: "peers peer1_replicating ''peer2'' = None"
    and pw: "peers peer1_replicating = [''peer1'' \<mapsto> 1]"
    and cw: "closed_chans peer1_replicating = {}"
    by (simp_all add: peers_def peer1_replicating_def)
  from tracked [OF p1] obtain w' where
    l: "Leave ''peer1'' peer1_replicating = Inr w'"
    and pe: "peers w' = (peers peer1_replicating)(''peer1'' := None)"
    and cc: "closed_chans w' = insert 1 (closed_chans peer1_replicating)"
    and ts: "tasks w' = tasks peer1_replicating"
    and st: "1 \<in> set (stops w')"
    by blast
  have w': "w' = peer1_replicating\<lparr>closed_chans := {1}, servers := Some Map.empty\<rparr>"
    using l by (simp add: peer1_replicating_def replicator_eval)
  obtain v1 where s: "step w' (TaskStep 0 SelectStop) = Some (Inr v1)"
    by (simp add: w' peer1_replicating_def replicator_eval)
  obtain v2 where r2: "run v1 [TaskStep 0 (RecvReturns (Inr ''late''))] = Some (Inr v2)"
    using s by (auto simp: w' peer1_replicating_def replicator_eval)
  from observed [OF s r2] have "main (tasks v2 ! 0) = Returned" "produced 0 (trace v2) = produced 0 (trace w')"
    by simp_all
  moreover have "produced 0 (trace w') = []"
    by (simp add: w' peer1_replicating_def produced_def)
  ultimately have obs: "\<exists>v1 v2. step w' (TaskStep 0 SelectStop) = Some (Inr v1)
                \<and> run v1 [TaskStep 0 (RecvReturns (Inr ''late''))] = Some (Inr v2)
                \<and> main (tasks v2 ! 0) = Returned
                \<and> produced 0 (trace v2) = []"
    using s r2 by (intro exI [of _ v1] exI [of _ v2]) simp
  have a: "\<exists>w'. Leave ''peer1'' peer1_replicating = Inr w' \<and> peers w' = Map.empty
          \<and> closed_chans w' = {1} \<and> tasks w' = tasks peer1_replicating \<and> 1 \<in> set (stops w')
          \<and> (\<exists>v1 v2. step w' (TaskStep 0 SelectStop) = Some (Inr v1)
                \<and> run v1 [TaskStep 0 (RecvReturns (Inr ''late''))] = Some (Inr v2)
                \<and> main (tasks v2 ! 0) = Returned
                \<and> produced 0 (trace v2) = [])"
    using l pe cc ts st obs pw cw by (intro exI [of _ w']) simp
  from untracked [OF p2] obtain w2 where
    "Leave ''peer2'' peer1_replicating = Inr w2" "peers w2 = peers peer1_replicating"
    "closed_chans w2 = closed_chans peer1_replicating" "tasks w2 = tasks peer1_replicating"
    by blast
  then have b: "\<exists>w'. Leave ''peer2'' peer1_replicating = Inr w' \<and> peers w' = [''peer1'' \<mapsto> 1]
          \<and> closed_chans w' = {} \<and> tasks w' = tasks peer1_replicating"
    using pw cw by (intro exI [of _ w2]) simp
  from run_peer1_joined a b show ?thesis by (intro conjI)
qed

theorem Close_stops_replication_witness:
  "run zero_Replicator peer1_joined = Some (Inr peer1_replicating)
   \<and> (\<exists>w'. Close peer1_replicating = Inr w' \<and> closed w' \<and> chan_closed w' (close w')
          \<and> tasks w' = tasks peer1_replicating
          \<and> (\<exists>v. run w' [DoJoin ''peer2'' ''10.0.0.2:8400'', TaskStep 0 (RecvReturns (Inr ''late''))]
                    = Some (Inr v)
                \<and> closed v \<and> length (tasks v) = 1
                \<and> (\<exists>v1. step v (TaskStep 0 SelectClose) = Some (Inr v1)
                      \<and> main (tasks v1 ! 0) = Returned
                      \<and> produced 0 (trace v1) = [])))"
proof -
  let ?bs = "[DoJoin ''peer2'' ''10.0.0.2:8400'', TaskStep 0 (RecvReturns (Inr ''late''))] :: string action list"
  from Close_stops_replication [OF run_peer1_joined] obtain w' where
    c: "Close peer1_replicating = Inr w'" and cl: "closed w'" and rd: "chan_closed w' (close w')"
    and ts: "tasks w' = tasks peer1_replicating"
    and later: "\<forall>bs v. run w' bs = Some (Inr v) \<longrightarrow>
                  closed v \<and> chan_closed v (close v) \<and> length (tasks v) = length (tasks peer1_replicating)
                  \<and> (\<forall>name a. \<exists>v'. Join name a v = Inr v' \<and> tasks v' = tasks v
                                   \<and> peers v' = peers v \<and> trace v' = trace v)
                  \<and> (\<forall>i < length (tasks v). main (tasks v ! i) = AtSelect \<longrightarrow>
                        (\<exists>v1. step v (TaskStep i SelectClose) = Some (Inr v1)
                            \<and> main (tasks v1 ! i) = Returned
                            \<and> (\<forall>cs v2. run v1 cs = Some (Inr v2) \<longrightarrow>
                                  main (tasks v2 ! i) = Returned
                                  \<and> produced i (trace v2) = produced i (trace v))))"
    by (elim exE conjE)
  have w': "w' = peer1_replicating\<lparr>closed := True, closed_chans := {0}, servers := None\<rparr>"
    using c by (simp add: peer1_replicating_def replicator_eval)
  obtain v where rv: "run w' ?bs = Some (Inr v)"
    and v: "main (tasks v ! 0) = AtSelect" "produced 0 (trace v) = []"
    by (simp add: w' peer1_replicating_def replicator_eval)
  have l1: "length (tasks peer1_replicating) = 1" by (simp add: peer1_replicating_def)
  from later [rule_format, OF rv] l1 have cv: "closed v" and len: "length (tasks v) = 1"
    and obs: "\<forall>i < length (tasks v). main (tasks v ! i) = AtSelect \<longrightarrow>
                        (\<exists>v1. step v (TaskStep i SelectClose) = Some (Inr v1)
                            \<and> main (tasks v1 ! i) = Returned
                            \<and> (\<forall>cs v2. run v1 cs = Some (Inr v2) \<longrightarrow>
                                  main (tasks v2 ! i) = Returned
                                  \<and> produced i (trace v2) = produced i (trace v)))"
    by simp_all
  from obs [rule_format, of 0] len v obtain v1 where
    s: "step v (TaskStep 0 SelectClose) = Some (Inr v1)" and m: "main (tasks v1 ! 0) = Returned"
    and fut: "\<forall>cs v2. run v1 cs = Some (Inr v2) \<longrightarrow>
                 main (tasks v2 ! 0) = Returned \<and> produced 0 (trace v2) = produced 0 (trace v)"
    by auto
  from fut [rule_format, of "[]" v1] v have "produced 0 (trace v1) = []" by simp
  with s m have "\<exists>v1. step v (TaskStep 0 SelectClose) = Some (Inr v1)
                      \<and> main (tasks v1 ! 0) = Returned \<and> produced 0 (trace v1) = []"
    by (intro exI [of _ v1]) simp
  with rv cv len have "\<exists>v. run w' ?bs = Some (Inr v) \<and> closed v \<and> length (tasks v) = 1
                \<and> (\<exists>v1. step v (TaskStep 0 SelectClose) = Some (Inr v1)
                      \<and> main (tasks v1 ! 0) = Returned
                      \<and> produced 0 (trace v1) = [])"
    by (intro exI [of _ v]) simp
  with c cl rd ts have "\<exists>w'. Close peer1_replicating = Inr w' \<and> closed w' \<and> chan_closed w' (close w')
          \<and> tasks w' = tasks peer1_replicating
          \<and> (\<exists>v. run w' ?bs = Some (Inr v)
                \<and> closed v \<and> length (tasks v) = 1
                \<and> (\<exists>v1. step v (TaskStep 0 SelectClose) = Some (Inr v1)
                      \<and> main (tasks v1 ! 0) = Returned
                      \<and> produced 0 (trace v1) = []))"
    by (intro exI [of _ w']) simp
  with run_peer1_joined show ?thesis by (intro conjI)
qed

text \<open>The state in which \<open>Close\<close> leaves \<open>peer1_replicating\<close>, and the state two loop
  iterations later in which the goroutine has taken a record each time.\<close>

definition peer1_closed :: "string world" where
  "peer1_closed = peer1_replicating\<lparr>closed := True, closed_chans := {0}, servers := None\<rparr>"

definition peer1_producing_after_close :: "string world" where
  "peer1_producing_after_close =
     peer1_closed\<lparr>trace := trace peer1_closed @ [(0, ProduceCall ''a''), (0, ProduceCall ''b'')]\<rparr>"

text \<open>After \<open>Close\<close> has returned, the goroutine of \<open>peer1\<close> can still take and produce every
  record of any list the stream delivers.\<close>

lemma after_close_can_produce:
  "\<exists>v. run peer1_closed (replay 0 rs) = Some (Inr v)
      \<and> trace v = trace peer1_closed @ map (\<lambda>r. (0, ProduceCall r)) rs"
  by (rule run_replay) (simp_all add: peer1_closed_def peer1_replicating_def)

text \<open>
  C8 (as stated, refuted).  \<open>Close\<close> has returned on \<open>peer1_replicating\<close>.  In each of its next
  two loop iterations the goroutine of \<open>peer1\<close> takes the record case although the close case
  is ready: it calls \<open>Produce\<close> for \<open>a\<close> and for \<open>b\<close> after \<open>Close\<close> and is still in its loop.
  So a running task need not observe the close signal on its next loop iteration.
\<close>

theorem Close_not_observed_on_next_iteration:
  "Close peer1_replicating = Inr peer1_closed
   \<and> run peer1_closed
         [TaskStep 0 (RecvReturns (Inr ''a'')), TaskStep 0 (SelectRecord None),
          TaskStep 0 (RecvReturns (Inr ''b'')), TaskStep 0 (SelectRecord None)]
       = Some (Inr peer1_producing_after_close)
   \<and> produced 0 (trace peer1_closed) = []
   \<and> produced 0 (trace peer1_producing_after_close) = [''a'', ''b'']
   \<and> main (tasks peer1_producing_after_close ! 0) = AtSelect"
proof -
  have c: "Close peer1_replicating = Inr peer1_closed"
    by (simp add: peer1_closed_def peer1_replicating_def replicator_eval)
  have r: "run peer1_closed
         [TaskStep 0 (RecvReturns (Inr ''a'')), TaskStep 0 (SelectRecord None),
          TaskStep 0 (RecvReturns (Inr ''b'')), TaskStep 0 (SelectRecord None)]
       = Some (Inr peer1_producing_after_close)"
    by (simp add: peer1_producing_after_close_def peer1_closed_def peer1_replicating_def
          step_def replicate_step_def chan_closed_def)
  have p: "produced 0 (trace peer1_closed) = []"
       "produced 0 (trace peer1_producing_after_close) = [''a'', ''b'']"
       "main (tasks peer1_producing_after_close ! 0) = AtSelect"
    by (simp_all add: peer1_producing_after_close_def peer1_closed_def peer1_replicating_def
          produced_def)
  from c r p show ?thesis by (intro conjI)
qed

text \<open>The three other error paths end the goroutine: they are a \<open>return\<close> of \<open>replicate\<close>
  itself, after the error has been logged.\<close>

lemma dial_consume_produce_errors_return:
  "main t = AtDial \<Longrightarrow>
     replicate_step cr sr t (DialReturns (Some e))
       = Some (t\<lparr>main := Returned\<rparr>, [DialCall (addr t), LogError e ''failed to dial'' (addr t)])"
  "main t = AtConsumeStream \<Longrightarrow>
     replicate_step cr sr t (ConsumeStreamReturns (Some e))
       = Some (t\<lparr>main := Returned\<rparr>,
               [ConsumeStreamCall (addr t) 0, LogError e ''failed to consume'' (addr t), ConnClose (addr t)])"
  "main t = AtSelect \<Longrightarrow> rx t = Holding r \<Longrightarrow>
     replicate_step cr sr t (SelectRecord (Some e))
       = Some (t\<lparr>main := Returned, rx := Receiving\<rparr>,
               [ProduceCall r, LogError e ''failed to produce'' (addr t), ConnClose (addr t)])"
  by (simp_all add: replicate_step_def)

text \<open>
  C6 (the code at the input where the claim fails).  \<open>peer1\<close> has joined and its goroutine
  is in its loop when \<open>stream.Recv()\<close> returns an error.  The error is logged and the
  receiving goroutine is gone, but \<open>replicate\<close> has not returned: it is still in its
  \<open>select\<close>, where no case is ready and no step of the task is possible, until \<open>Leave\<close> or
  \<open>Close\<close> closes a channel.  The peer stays tracked, so a \<open>Join\<close> for it starts nothing.
\<close>

theorem receive_error_leaves_task_blocked:
  "\<exists>w. run peer1_replicating [TaskStep 0 (RecvReturns (Inl (Error ''EOF'')))] = Some (Inr w)
      \<and> trace w = [(0, DialCall ''10.0.0.1:8400''), (0, ConsumeStreamCall ''10.0.0.1:8400'' 0),
                   (0, LogError (Error ''EOF'') ''failed to receive'' ''10.0.0.1:8400'')]
      \<and> main (tasks w ! 0) = AtSelect \<and> main (tasks w ! 0) \<noteq> Returned
      \<and> rx (tasks w ! 0) = Exited
      \<and> (\<forall>ev. step w (TaskStep 0 ev) = None)
      \<and> peers w ''peer1'' = Some 1"
proof -
  let ?w = "peer1_replicating\<lparr>
           tasks := [\<lparr>addr = ''10.0.0.1:8400'', stopCh = 1, main = AtSelect, rx = Exited\<rparr>],
           trace := [(0, DialCall ''10.0.0.1:8400''), (0, ConsumeStreamCall ''10.0.0.1:8400'' 0),
                   (0, LogError (Error ''EOF'') ''failed to receive'' ''10.0.0.1:8400'')]\<rparr>"
  have r: "run peer1_replicating [TaskStep 0 (RecvReturns (Inl (Error ''EOF'')))] = Some (Inr ?w)"
    by (simp add: peer1_replicating_def step_def replicate_step_def chan_closed_def)
  have blocked: "step ?w (TaskStep 0 ev) = None" for ev
    by (cases ev) (simp_all add: peer1_replicating_def step_def replicate_step_def chan_closed_def)
  have "peers ?w ''peer1'' = Some 1" by (simp add: peers_def peer1_replicating_def)
  with r blocked show ?thesis by (intro exI [of _ ?w]) simp
qed

section \<open>The segmented log (package log)\<close>

text \<open>
  Of package log only \<open>log_test.go\<close> and the replicator are among the sources; the store,
  the index, the segment and the log themselves are not.  Each definition of this section
  is therefore written from the specification, and says so.  Offsets, positions and sizes
  are natural numbers: the specification's 64-bit counters cannot wrap in the runs
  considered here.  Disk failures are not part of the model.
\<close>

text \<open>Modelled from the spec: the width of the length prefix of a store entry, missing from
  the sources (\<open>lenWidth\<close> in the test); "4-byte big-endian length".\<close>

definition lenWidth :: nat where
  "lenWidth = 4"

text \<open>Modelled from the spec: the width of an index entry, missing from the sources;
  "fixed-size (relativeOffset: 4 bytes, position: 8 bytes) pair".\<close>

definition entWidth :: nat where
  "entWidth = 12"

text \<open>Modelled from the spec: the segment part of the log's \<open>Config\<close>, missing from the
  sources; "configured MaxStoreBytes / MaxIndexBytes".\<close>

record Config =
  MaxStoreBytes :: nat
  MaxIndexBytes :: nat

text \<open>Modelled from the spec: the record type \<open>api.Record\<close>, missing from the sources;
  "opaque byte payload plus an assigned 64-bit unsigned offset".\<close>

record LogRecord =
  payload :: string
  offset :: nat

text \<open>Modelled from the spec: the store file, missing from the sources; "sequence of
  [4-byte big-endian length][payload bytes] entries", kept as the entries with the position
  each starts at, and "store size is the current end-of-file offset".\<close>

record Store =
  entries :: "(nat \<times> string) list"
  store_size :: nat

text \<open>Modelled from the spec: \<open>Store.Append\<close>, missing from the sources; "append returns
  (bytesWritten, filePosition)".\<close>

definition Store_Append :: "Store \<Rightarrow> string \<Rightarrow> nat \<times> nat \<times> Store" where
  "Store_Append st p =
     (let pos = store_size st; n = lenWidth + length p
      in (n, pos, st\<lparr>entries := entries st @ [(pos, p)], store_size := pos + n\<rparr>))"

text \<open>Modelled from the spec: \<open>Store.Read\<close>, missing from the sources; "read-by-position
  returns the payload at that position", and a read where no entry starts "fails with an
  I/O error".\<close>

definition Store_Read :: "Store \<Rightarrow> nat \<Rightarrow> failure + string" where
  "Store_Read st pos =
     (case map_of (entries st) pos of None \<Rightarrow> Inl (Error ''EOF'') | Some p \<Rightarrow> Inr p)"

text \<open>Modelled from the spec: the index file, missing from the sources; its entries
  (relative offset, position) "are written in the same order as Store appends, so the Nth
  index entry corresponds to the Nth store record".\<close>

record Index =
  index_entries :: "(nat \<times> nat) list"

text \<open>Modelled from the spec: the size of the index, missing from the sources: entry width
  times number of entries.\<close>

definition index_size :: "Index \<Rightarrow> nat" where
  "index_size ix = entWidth * length (index_entries ix)"

text \<open>Modelled from the spec: \<open>Index.Write\<close>, missing from the sources; "Writing beyond
  configured capacity fails".\<close>

definition Index_Write :: "nat \<Rightarrow> Index \<Rightarrow> nat \<Rightarrow> nat \<Rightarrow> failure + Index" where
  "Index_Write capacity ix rel pos =
     (if capacity < index_size ix + entWidth then Inl (Error ''EOF'')
      else Inr (ix\<lparr>index_entries := index_entries ix @ [(rel, pos)]\<rparr>))"

text \<open>Modelled from the spec: \<open>Index.Read\<close> for a relative offset, missing from the sources;
  the index is a "fixed-width mapping from a segment-relative record number to its byte
  position".\<close>

definition Index_Read :: "Index \<Rightarrow> nat \<Rightarrow> failure + nat \<times> nat" where
  "Index_Read ix rel =
     (if rel < length (index_entries ix) then Inr (index_entries ix ! rel)
      else Inl (Error ''EOF''))"

text \<open>Modelled from the spec: the segment, missing from the sources; "attributes baseOffset
  (first offset it owns), nextOffset (offset to assign to the next append), open Store and
  Index handles, configured MaxStoreBytes / MaxIndexBytes".\<close>

record Segment =
  baseOffset :: nat
  nextOffset :: nat
  store :: Store
  index :: Index
  config :: Config

text \<open>Modelled from the spec: the constructor of a segment over new files, missing from the
  sources; \<open>nextOffset\<close> is "baseOffset if the Index is empty".\<close>

definition newSegment :: "nat \<Rightarrow> Config \<Rightarrow> Segment" where
  "newSegment base c =
     \<lparr>baseOffset = base, nextOffset = base, store = \<lparr>entries = [], store_size = 0\<rparr>,
      index = \<lparr>index_entries = []\<rparr>, config = c\<rparr>"

text \<open>Modelled from the spec: \<open>Segment.Append\<close>, missing from the sources; "encode record,
  write to Store, record the returned position into the Index at relative offset
  nextOffset - baseOffset, increment nextOffset", the record carrying the offset assigned
  to it.  The serialisation \<open>enc\<close> is a parameter: the specification does not fix it.\<close>

definition Segment_Append ::
  "(LogRecord \<Rightarrow> string) \<Rightarrow> Segment \<Rightarrow> LogRecord \<Rightarrow> Segment \<times> (failure + nat)" where
  "Segment_Append enc s r =
     (let cur = nextOffset s in
      case Store_Append (store s) (enc (r\<lparr>offset := cur\<rparr>)) of
        (n, pos, st') \<Rightarrow>
          (case Index_Write (MaxIndexBytes (config s)) (index s) (cur - baseOffset s) pos of
             Inl e \<Rightarrow> (s\<lparr>store := st'\<rparr>, Inl e)
           | Inr ix' \<Rightarrow> (s\<lparr>store := st', index := ix', nextOffset := cur + 1\<rparr>, Inr cur)))"

text \<open>Modelled from the spec: \<open>Segment.Read\<close>, missing from the sources; "compute relative
  offset offset - baseOffset, look up position via Index, read payload from Store at that
  position, deserialize".  The deserialisation \<open>dec\<close> is a parameter.\<close>

definition Segment_Read ::
  "(string \<Rightarrow> LogRecord option) \<Rightarrow> Segment \<Rightarrow> nat \<Rightarrow> failure + LogRecord" where
  "Segment_Read dec s off =
     (case Index_Read (index s) (off - baseOffset s) of
        Inl e \<Rightarrow> Inl e
      | Inr (rel, pos) \<Rightarrow>
          (case Store_Read (store s) pos of
             Inl e \<Rightarrow> Inl e
           | Inr p \<Rightarrow> (case dec p of None \<Rightarrow> Inl (Error ''cannot deserialize'') | Some r \<Rightarrow> Inr r)))"

text \<open>Modelled from the spec: \<open>Segment.IsMaxed\<close>, missing from the sources; "true when Store
  size \<ge> MaxStoreBytes or Index size \<ge> MaxIndexBytes".\<close>

definition IsMaxed :: "Segment \<Rightarrow> bool" where
  "IsMaxed s \<longleftrightarrow>
     MaxStoreBytes (config s) \<le> store_size (store s) \<or> MaxIndexBytes (config s) \<le> index_size (index s)"

text \<open>Modelled from the spec: the log, missing from the sources; "ordered sequence of
  Segments sorted by baseOffset", the active segment being the last one.\<close>

record SegLog =
  segments :: "Segment list"
  log_config :: Config

text \<open>Modelled from the spec: \<open>NewLog(dir, c)\<close> on an empty directory, missing from the
  sources; a segment is created "on init", so a fresh log has one empty segment at offset 0.\<close>

definition NewSegLog :: "Config \<Rightarrow> SegLog" where
  "NewSegLog c = \<lparr>segments = [newSegment 0 c], log_config = c\<rparr>"

text \<open>Modelled from the spec: \<open>Log.Append\<close>, missing from the sources; "delegates to the
  active segment; if IsMaxed(), first rolls over - creates a new segment with baseOffset =
  current nextOffset, appends it to the segment list, makes it active - then appends".  A
  segment is also created "when no segments exist yet".\<close>

definition Log_Append ::
  "(LogRecord \<Rightarrow> string) \<Rightarrow> SegLog \<Rightarrow> LogRecord \<Rightarrow> SegLog \<times> (failure + nat)" where
  "Log_Append enc l r =
     (let segs =
            (if segments l = [] then [newSegment 0 (log_config l)]
             else if IsMaxed (last (segments l))
             then segments l @ [newSegment (nextOffset (last (segments l))) (log_config l)]
             else segments l)
      in case Segment_Append enc (last segs) r of
           (active, res) \<Rightarrow> (l\<lparr>segments := butlast segs @ [active]\<rparr>, res))"

text \<open>Modelled from the spec: \<open>Log.Read\<close>, missing from the sources; "search the segment list
  for the segment whose range contains offset; fails with an offset-out-of-range error if
  no segment owns it", a segment owning the offsets from \<open>baseOffset\<close> up to but not
  including \<open>nextOffset\<close>.\<close>

definition Log_Read ::
  "(string \<Rightarrow> LogRecord option) \<Rightarrow> SegLog \<Rightarrow> nat \<Rightarrow> failure + LogRecord" where
  "Log_Read dec l off =
     (case find (\<lambda>s. baseOffset s \<le> off \<and> off < nextOffset s) (segments l) of
        None \<Rightarrow> Inl (ErrOffsetOutOfRange off)
      | Some s \<Rightarrow> Segment_Read dec s off)"

text \<open>Modelled from the spec: \<open>Log.Truncate\<close>, missing from the sources; "removes every
  segment whose highest offset is strictly less than lowest; does not affect segments with
  any offset \<ge> lowest".  The highest offset of a segment that holds a record is
  \<open>nextOffset - 1\<close>; a segment that holds none has no highest offset and is kept.\<close>

definition Truncate :: "SegLog \<Rightarrow> nat \<Rightarrow> SegLog" where
  "Truncate l lowest =
     l\<lparr>segments :=
         filter (\<lambda>s. \<not> (baseOffset s < nextOffset s \<and> nextOffset s - 1 < lowest)) (segments l)\<rparr>"

subsection \<open>Truncation below the first segment boundary\<close>

lemmas seglog_eval =
  NewSegLog_def newSegment_def Log_Append_def Segment_Append_def Store_Append_def Index_Write_def
  index_size_def IsMaxed_def Log_Read_def Segment_Read_def Index_Read_def Store_Read_def
  Truncate_def lenWidth_def entWidth_def Let_def

text \<open>
  C4.  Three records are appended to a fresh log whose segment limits leave room for them
  in the first segment (three index entries fit, and the store limit is not reached by the
  first two records), with a serialisation that reads back what it wrote.  The appends
  return offsets 0, 1 and 2.  \<open>Truncate 1\<close> removes only segments whose highest offset is
  below 1; the one segment of the log owns offsets 0 to 2, so no segment is removed, and
  the records at offsets 0, 1 and 2 are read back afterwards.
\<close>

theorem Truncate_below_segment_boundary_keeps_records:
  assumes index_room: "3 * entWidth \<le> MaxIndexBytes c"
    and store_room: "lenWidth + length (enc (ra\<lparr>offset := 0\<rparr>))
                      + (lenWidth + length (enc (rb\<lparr>offset := 1\<rparr>))) < MaxStoreBytes c"
    and codec: "dec (enc (ra\<lparr>offset := 0\<rparr>)) = Some (ra\<lparr>offset := 0\<rparr>)"
               "dec (enc (rb\<lparr>offset := 1\<rparr>)) = Some (rb\<lparr>offset := 1\<rparr>)"
               "dec (enc (rc\<lparr>offset := 2\<rparr>)) = Some (rc\<lparr>offset := 2\<rparr>)"
    and la: "Log_Append enc (NewSegLog c) ra = (la, resa)"
    and lb: "Log_Append enc la rb = (lb, resb)"
    and lc: "Log_Append enc lb rc = (lc, resc)"
  shows "resa = Inr 0 \<and> resb = Inr 1 \<and> resc = Inr 2
       \<and> (\<forall>s \<in> set (segments lc) - set (segments (Truncate lc 1)). nextOffset s - 1 < 1)
       \<and> length (segments lc) = 1
       \<and> segments (Truncate lc 1) = segments lc
       \<and> Log_Read dec (Truncate lc 1) 0 = Inr (ra\<lparr>offset := 0\<rparr>)
       \<and> Log_Read dec (Truncate lc 1) 1 = Inr (rb\<lparr>offset := 1\<rparr>)
       \<and> Log_Read dec (Truncate lc 1) 2 = Inr (rc\<lparr>offset := 2\<rparr>)"
proof -
  let ?ea = "enc (ra\<lparr>offset := 0\<rparr>)" and ?eb = "enc (rb\<lparr>offset := 1\<rparr>)"
    and ?ec = "enc (rc\<lparr>offset := 2\<rparr>)"
  from index_room have ir: "36 \<le> MaxIndexBytes c" by (simp add: entWidth_def)
  from store_room have sr: "8 + length ?ea + length ?eb < MaxStoreBytes c" by (simp add: lenWidth_def)
  have fa: "la = \<lparr>segments = [\<lparr>baseOffset = 0, nextOffset = 1,
                      store = \<lparr>entries = [(0, ?ea)], store_size = 4 + length ?ea\<rparr>,
                      index = \<lparr>index_entries = [(0, 0)]\<rparr>, config = c\<rparr>], log_config = c\<rparr>"
    and ga: "resa = Inr 0"
    using la [symmetric] ir sr by (simp_all add: seglog_eval)
  have fb: "lb = \<lparr>segments = [\<lparr>baseOffset = 0, nextOffset = 2,
                      store = \<lparr>entries = [(0, ?ea), (4 + length ?ea, ?eb)],
                               store_size = 8 + length ?ea + length ?eb\<rparr>,
                      index = \<lparr>index_entries = [(0, 0), (1, 4 + length ?ea)]\<rparr>, config = c\<rparr>],
                   log_config = c\<rparr>"
    and gb: "resb = Inr 1"
    using lb [symmetric] ir sr unfolding fa by (simp_all add: seglog_eval)
  have nm: "\<not> IsMaxed (last (segments lb))"
    using ir sr unfolding fb by (simp add: seglog_eval)
  have fc: "lc = \<lparr>segments = [\<lparr>baseOffset = 0, nextOffset = 3,
                      store = \<lparr>entries = [(0, ?ea), (4 + length ?ea, ?eb),
                                          (8 + length ?ea + length ?eb, ?ec)],
                               store_size = 12 + length ?ea + length ?eb + length ?ec\<rparr>,
                      index = \<lparr>index_entries = [(0, 0), (1, 4 + length ?ea),
                                                 (2, 8 + length ?ea + length ?eb)]\<rparr>, config = c\<rparr>],
                   log_config = c\<rparr>"
    and gc: "resc = Inr 2"
    using lc [symmetric] ir sr unfolding fb by (simp_all add: seglog_eval)
  have t: "Truncate lc 1 = lc" unfolding fc by (simp add: Truncate_def)
  have "Log_Read dec lc 0 = Inr (ra\<lparr>offset := 0\<rparr>)"
       "Log_Read dec lc 1 = Inr (rb\<lparr>offset := 1\<rparr>)"
       "Log_Read dec lc 2 = Inr (rc\<lparr>offset := 2\<rparr>)"
    unfolding fc using codec
    by (simp_all add: Log_Read_def Segment_Read_def Index_Read_def Store_Read_def)
  with ga gb gc t show ?thesis by (simp add: fc)
qed


text \<open>Test data: the configuration of the test (\<open>MaxIndexBytes = 64\<close>) with a store limit
  of 1024 bytes, the record of the test, and a serialisation that writes the offset in
  unary before the payload.\<close>

definition test_config :: Config where
  "test_config = \<lparr>MaxStoreBytes = 1024, MaxIndexBytes = 64\<rparr>"

definition hello_world :: LogRecord where
  "hello_world = \<lparr>payload = ''hello world'', offset = 0\<rparr>"

definition unary_enc :: "LogRecord \<Rightarrow> string" where
  "unary_enc r = replicate (offset r) CHR ''+'' @ CHR ''|'' # payload r"

definition unary_dec :: "string \<Rightarrow> LogRecord option" where
  "unary_dec s =
     (case dropWhile (\<lambda>c. c = CHR ''+'') s of
        [] \<Rightarrow> None
      | x # p \<Rightarrow> Some \<lparr>payload = p, offset = length (takeWhile (\<lambda>c. c = CHR ''+'') s)\<rparr>)"

lemma dropWhile_unary: "dropWhile (\<lambda>c. c = CHR ''+'') (replicate n CHR ''+'' @ CHR ''|'' # p) = CHR ''|'' # p"
  by (induction n) simp_all

lemma takeWhile_unary: "takeWhile (\<lambda>c. c = CHR ''+'') (replicate n CHR ''+'' @ CHR ''|'' # p) = replicate n CHR ''+''"
  by (induction n) simp_all

lemma unary_codec: "unary_dec (unary_enc r) = Some r"
  by (simp add: unary_dec_def unary_enc_def dropWhile_unary takeWhile_unary)

lemma length_unary_enc: "length (unary_enc r) = offset r + 1 + length (payload r)"
  by (simp add: unary_enc_def)

theorem Truncate_below_segment_boundary_keeps_records_witness:
  "snd (Log_Append unary_enc (NewSegLog test_config) hello_world) = Inr 0
   \<and> Log_Read unary_dec
        (Truncate (fst (Log_Append unary_enc (fst (Log_Append unary_enc
            (fst (Log_Append unary_enc (NewSegLog test_config) hello_world)) hello_world)) hello_world)) 1) 0
       = Inr hello_world
   \<and> Log_Read unary_dec
        (Truncate (fst (Log_Append unary_enc (fst (Log_Append unary_enc
            (fst (Log_Append unary_enc (NewSegLog test_config) hello_world)) hello_world)) hello_world)) 1) 1
       = Inr (hello_world\<lparr>offset := 1\<rparr>)
   \<and> Log_Read unary_dec
        (Truncate (fst (Log_Append unary_enc (fst (Log_Append unary_enc
            (fst (Log_Append unary_enc (NewSegLog test_config) hello_world)) hello_world)) hello_world)) 1) 2
       = Inr (hello_world\<lparr>offset := 2\<rparr>)"
proof -
  let ?a1 = "Log_Append unary_enc (NewSegLog test_config) hello_world"
  let ?a2 = "Log_Append unary_enc (fst ?a1) hello_world"
  let ?a3 = "Log_Append unary_enc (fst ?a2) hello_world"
  have index_room: "3 * entWidth \<le> MaxIndexBytes test_config"
    by (simp add: entWidth_def test_config_def)
  have store_room: "lenWidth + length (unary_enc (hello_world\<lparr>offset := 0\<rparr>))
                      + (lenWidth + length (unary_enc (hello_world\<lparr>offset := 1\<rparr>)))
                    < MaxStoreBytes test_config"
    by (simp add: lenWidth_def test_config_def length_unary_enc hello_world_def)
  have h0: "hello_world\<lparr>offset := 0\<rparr> = hello_world" by (simp add: hello_world_def)
  from Truncate_below_segment_boundary_keeps_records
         [where rc = hello_world and la = "fst ?a1" and resa = "snd ?a1" and lb = "fst ?a2"
            and resb = "snd ?a2" and lc = "fst ?a3" and resc = "snd ?a3",
          OF index_room store_room unary_codec unary_codec unary_codec]
  show ?thesis by (simp add: h0)
qed

end
